theory Spec2Isabelle
  imports Main "HOL-Library.Multiset"
begin

section \<open>Failure breaker (services/circuit\_breaker.py)\<close>

text \<open>
  \<^verbatim>\<open>CircuitBreaker\<close> keeps two \<^verbatim>\<open>defaultdict\<close>s keyed by job id. A missing key
  reads as \<^verbatim>\<open>0\<close> resp. \<^verbatim>\<open>False\<close>, and no method enumerates the keys, so each
  dictionary is a total function with that default. Python integers are unbounded.
\<close>

record breaker =
  failures :: "string \<Rightarrow> int"
  tripped :: "string \<Rightarrow> bool"

definition FAILURE_THRESHOLD :: int where
  "FAILURE_THRESHOLD = 5"

definition breaker_init :: breaker where
  "breaker_init = \<lparr>failures = (\<lambda>_. 0), tripped = (\<lambda>_. False)\<rparr>"

definition record_failure :: "string \<Rightarrow> breaker \<Rightarrow> bool \<times> breaker" where
  "record_failure job_id b =
     (let b1 = b\<lparr>failures := (failures b)(job_id := failures b job_id + 1)\<rparr>
      in if failures b1 job_id \<ge> FAILURE_THRESHOLD
         then (True, if \<not> tripped b1 job_id
                     then b1\<lparr>tripped := (tripped b1)(job_id := True)\<rparr> else b1)
         else (False, b1))"

definition record_success :: "string \<Rightarrow> breaker \<Rightarrow> breaker" where
  "record_success job_id b =
     (if failures b job_id > 0 then b\<lparr>failures := (failures b)(job_id := 0)\<rparr> else b)"

definition is_tripped :: "string \<Rightarrow> breaker \<Rightarrow> bool" where
  "is_tripped job_id b = tripped b job_id"

definition get_failure_count :: "string \<Rightarrow> breaker \<Rightarrow> int" where
  "get_failure_count job_id b = failures b job_id"

definition reset :: "string \<Rightarrow> breaker \<Rightarrow> breaker" where
  "reset job_id b =
     b\<lparr>failures := (failures b)(job_id := 0), tripped := (tripped b)(job_id := False)\<rparr>"

record breaker_status =
  st_job_id :: string
  st_failures :: int
  st_threshold :: int
  st_tripped :: bool
  st_remaining_attempts :: int

definition get_status :: "string \<Rightarrow> breaker \<Rightarrow> breaker_status" where
  "get_status job_id b =
     \<lparr>st_job_id = job_id, st_failures = failures b job_id, st_threshold = FAILURE_THRESHOLD,
      st_tripped = tripped b job_id,
      st_remaining_attempts = max 0 (FAILURE_THRESHOLD - failures b job_id)\<rparr>"

text \<open>The public methods as calls, and the state after a sequence of calls.\<close>

datatype breaker_call =
    RecordFailure string
  | RecordSuccess string
  | IsTripped string
  | GetFailureCount string
  | Reset string
  | GetStatus string

fun breaker_step :: "breaker_call \<Rightarrow> breaker \<Rightarrow> breaker" where
  "breaker_step (RecordFailure k) b = snd (record_failure k b)"
| "breaker_step (RecordSuccess k) b = record_success k b"
| "breaker_step (IsTripped k) b = b"
| "breaker_step (GetFailureCount k) b = b"
| "breaker_step (Reset k) b = reset k b"
| "breaker_step (GetStatus k) b = b"

fun breaker_run :: "breaker_call list \<Rightarrow> breaker \<Rightarrow> breaker" where
  "breaker_run [] b = b"
| "breaker_run (c # cs) b = breaker_run cs (breaker_step c b)"

section \<open>Python string and list primitives used by the services\<close>

text \<open>
  Python \<^verbatim>\<open>str\<close> is modelled as \<^typ>\<open>string\<close>; a \<^typ>\<open>char\<close> stands for a code point
  below 256, so the separators U+2028 and U+2029 of \<^verbatim>\<open>str.splitlines\<close> have no
  counterpart here.
\<close>

definition is_line_boundary :: "char \<Rightarrow> bool" where
  "is_line_boundary c \<longleftrightarrow>
     c \<in> set [CHR 0x0A, CHR 0x0B, CHR 0x0C, CHR 0x0D, CHR 0x1C, CHR 0x1D, CHR 0x1E, CHR 0x85]"

text \<open>\<^verbatim>\<open>str.isspace\<close> on one code point below 256.\<close>

definition isspace :: "char \<Rightarrow> bool" where
  "isspace c \<longleftrightarrow>
     c \<in> set [CHR 0x09, CHR 0x0A, CHR 0x0B, CHR 0x0C, CHR 0x0D, CHR 0x1C, CHR 0x1D, CHR 0x1E,
               CHR 0x1F, CHR 0x20, CHR 0x85, CHR 0xA0]"

definition lstrip :: "string \<Rightarrow> string" where
  "lstrip s = dropWhile isspace s"

text \<open>
  \<^verbatim>\<open>content.splitlines(keepends=True)\<close>: \<open>cur\<close> is the line read so far; a
  carriage return directly followed by a line feed ends one line.
\<close>

fun splitlines_from :: "string \<Rightarrow> string \<Rightarrow> string list" where
  "splitlines_from cur [] = (if cur = [] then [] else [cur])"
| "splitlines_from cur (c # cs) =
     (if c = CHR 0x0D then
        (case cs of
           [] \<Rightarrow> [cur @ [c]]
         | d # ds \<Rightarrow>
             if d = CHR 0x0A then (cur @ [c, d]) # splitlines_from [] ds
             else (cur @ [c]) # splitlines_from [] cs)
      else if is_line_boundary c then (cur @ [c]) # splitlines_from [] cs
      else splitlines_from (cur @ [c]) cs)"

definition splitlines_keepends :: "string \<Rightarrow> string list" where
  "splitlines_keepends content = splitlines_from [] content"

text \<open>
  The exceptions the patch methods can raise: the \<^verbatim>\<open>ValueError\<close> of a line number out
  of range, which carries that number, and the \<^verbatim>\<open>OverflowError\<close> of \<^verbatim>\<open>list.insert\<close>.
\<close>

datatype patch_error = LineOutOfRange int | OverflowError

text \<open>
  \<^verbatim>\<open>list.insert(i, x)\<close> of CPython on a 64-bit platform: the index is converted to
  a \<^verbatim>\<open>Py_ssize_t\<close>, and one that does not fit raises \<^verbatim>\<open>OverflowError\<close>. Otherwise
  a negative index counts from the end, and an index outside the list is clamped
  to its nearer end.
\<close>

definition PY_SSIZE_T_MAX :: int where
  "PY_SSIZE_T_MAX = 2 ^ 63 - 1"

definition PY_SSIZE_T_MIN :: int where
  "PY_SSIZE_T_MIN = - (2 ^ 63)"

definition py_insert :: "'a list \<Rightarrow> int \<Rightarrow> 'a \<Rightarrow> patch_error + 'a list" where
  "py_insert xs i x =
     (if i < PY_SSIZE_T_MIN \<or> PY_SSIZE_T_MAX < i then Inl OverflowError
      else
        (let n = int (length xs);
             j = (if i < 0 then max 0 (i + n) else min i n)
         in Inr (take (nat j) xs @ [x] @ drop (nat j) xs)))"

text \<open>\<^verbatim>\<open>''.join(lines)\<close> of the list an insertion returned.\<close>

definition join_inserted :: "patch_error + string list \<Rightarrow> patch_error + string" where
  "join_inserted r = (case r of Inl e \<Rightarrow> Inl e | Inr ls \<Rightarrow> Inr (concat ls))"

section \<open>Patch engine: producing the patched content (services/patch\_engine.py)\<close>

text \<open>
  The methods \<^verbatim>\<open>_apply_dom_patch\<close> and \<^verbatim>\<open>_apply_line_patch\<close>. An action that is none
  of the three known ones falls through every branch and leaves the content as it is.
\<close>

definition apply_dom_patch :: "string \<Rightarrow> int \<Rightarrow> string \<Rightarrow> string \<Rightarrow> patch_error + string"
  where
  "apply_dom_patch content line_number action code =
     (let lines = splitlines_keepends content in
      if action = ''insert_after_line'' then
        (if line_number \<le> int (length lines)
         then join_inserted (py_insert lines line_number (code @ [CHR 0x0A]))
         else Inl (LineOutOfRange line_number))
      else if action = ''replace_line'' then
        (if 0 < line_number \<and> line_number \<le> int (length lines)
         then Inr (concat (lines[nat (line_number - 1) := code @ [CHR 0x0A]]))
         else Inl (LineOutOfRange line_number))
      else if action = ''annotate'' then
        (if 0 < line_number \<and> line_number \<le> int (length lines)
         then join_inserted (py_insert lines line_number
                     (''<!-- SEO NOTE: '' @ code @ '' -->'' @ [CHR 0x0A]))
         else Inl (LineOutOfRange line_number))
      else Inr (concat lines))"

definition apply_line_patch :: "string \<Rightarrow> int \<Rightarrow> string \<Rightarrow> string \<Rightarrow> patch_error + string"
  where
  "apply_line_patch content line_number action code =
     (let lines = splitlines_keepends content in
      if action = ''insert_after_line'' then
        (if line_number \<le> int (length lines)
         then join_inserted (py_insert lines line_number (code @ [CHR 0x0A]))
         else Inl (LineOutOfRange line_number))
      else if action = ''replace_line'' then
        (if 0 < line_number \<and> line_number \<le> int (length lines)
         then (let original_line = lines ! nat (line_number - 1);
                   indent = length original_line - length (lstrip original_line);
                   indented_code = replicate indent (CHR '' '') @ lstrip code
               in Inr (concat (lines[nat (line_number - 1) := indented_code @ [CHR 0x0A]])))
         else Inl (LineOutOfRange line_number))
      else if action = ''annotate'' then
        (if 0 < line_number \<and> line_number \<le> int (length lines)
         then join_inserted (py_insert lines line_number
                     (''// SEO NOTE: '' @ code @ [CHR 0x0A]))
         else Inl (LineOutOfRange line_number))
      else Inr (concat lines))"

section \<open>Conflict resolver (services/deduplicator.py)\<close>

text \<open>
  The issue dictionaries handed to \<^verbatim>\<open>deduplicate_issues\<close>. \<^verbatim>\<open>severity\<close> holds the
  enum's value, \<^verbatim>\<open>conflict_with\<close> and \<^verbatim>\<open>superseded_by\<close> are keys the resolver adds.
\<close>

record issue =
  iss_id :: int
  iss_file_path :: string
  iss_line_number :: int
  iss_action :: string
  iss_code :: string
  iss_severity :: string
  iss_status :: string
  iss_conflict_with :: "int list option"
  iss_superseded_by :: "int option"

definition SEVERITY_ORDER :: "string \<rightharpoonup> int" where
  "SEVERITY_ORDER =
     [''critical'' \<mapsto> 4, ''high'' \<mapsto> 3, ''medium'' \<mapsto> 2, ''low'' \<mapsto> 1]"

text \<open>\<^verbatim>\<open>SEVERITY_ORDER.get(severity, 0)\<close>, the sort key.\<close>

definition severity_rank :: "issue \<Rightarrow> int" where
  "severity_rank x = (case SEVERITY_ORDER (iss_severity x) of Some r \<Rightarrow> r | None \<Rightarrow> 0)"

definition issue_key :: "issue \<Rightarrow> string \<times> int" where
  "issue_key x = (iss_file_path x, iss_line_number x)"

text \<open>
  \<^verbatim>\<open>grouped[key].append(issue)\<close> on a \<^verbatim>\<open>defaultdict(list)\<close>: the dictionary keeps its
  keys in the order of first insertion, so it is an association list.
\<close>

fun grouped_append :: "'k \<Rightarrow> 'v \<Rightarrow> ('k \<times> 'v list) list \<Rightarrow> ('k \<times> 'v list) list" where
  "grouped_append k x [] = [(k, [x])]"
| "grouped_append k x ((k', xs) # rest) =
     (if k = k' then (k', xs @ [x]) # rest else (k', xs) # grouped_append k x rest)"

definition group_issues :: "issue list \<Rightarrow> ((string \<times> int) \<times> issue list) list" where
  "group_issues issues = foldl (\<lambda>grouped x. grouped_append (issue_key x) x grouped) [] issues"

definition check_patch_conflict :: "issue list \<Rightarrow> bool" where
  "check_patch_conflict issues =
     (let replacing = filter (\<lambda>x. iss_action x = ''replace_line'') issues;
          actions = set (map iss_action replacing);
          codes = set (map iss_code replacing)
      in ''replace_line'' \<in> actions \<and> card codes > 1)"

text \<open>
  \<^verbatim>\<open>sorted(line_issues, key=..., reverse=True)\<close> is a stable sort in descending key
  order: issues of equal rank keep their order in \<^verbatim>\<open>line_issues\<close>. \<^const>\<open>sort_key\<close>
  is stable and ascending, so it sorts by the negated rank.
\<close>

definition sorted_by_severity :: "issue list \<Rightarrow> issue list" where
  "sorted_by_severity line_issues = sort_key (\<lambda>x. - severity_rank x) line_issues"

definition mark_conflict :: "int list \<Rightarrow> issue \<Rightarrow> issue" where
  "mark_conflict conflict_ids x =
     x\<lparr>iss_status := ''conflict'',
       iss_conflict_with := Some (filter (\<lambda>i. i \<noteq> iss_id x) conflict_ids)\<rparr>"

definition mark_superseded :: "issue \<Rightarrow> issue \<Rightarrow> issue" where
  "mark_superseded highest x =
     x\<lparr>iss_status := ''superseded'', iss_superseded_by := Some (iss_id highest)\<rparr>"

text \<open>
  The body of the loop over the groups: what one group appends to the result. A
  group holds at least one issue, so \<^verbatim>\<open>sorted_issues[0]\<close> is never taken of an empty
  list.
\<close>

definition dedup_group :: "issue list \<Rightarrow> issue list" where
  "dedup_group line_issues =
     (if length line_issues = 1 then [hd line_issues]
      else if check_patch_conflict line_issues
      then map (mark_conflict (map iss_id line_issues)) line_issues
      else (case sorted_by_severity line_issues of
              [] \<Rightarrow> []
            | highest # others \<Rightarrow> highest # map (mark_superseded highest) others))"

definition deduplicate_issues :: "issue list \<Rightarrow> issue list" where
  "deduplicate_issues issues = concat (map (\<lambda>(key, line_issues). dedup_group line_issues)
                                           (group_issues issues))"

text \<open>The issues of the input that target a given file and line, in input order.\<close>

definition line_group :: "issue list \<Rightarrow> string \<times> int \<Rightarrow> issue list" where
  "line_group issues k = filter (\<lambda>x. issue_key x = k) issues"

text \<open>A pending edit as the deduplication route builds it from a row of the issue table.\<close>

definition pending_edit ::
  "int \<Rightarrow> string \<Rightarrow> int \<Rightarrow> string \<Rightarrow> string \<Rightarrow> string \<Rightarrow> issue" where
  "pending_edit i path line act payload sev =
     \<lparr>iss_id = i, iss_file_path = path, iss_line_number = line, iss_action = act,
      iss_code = payload, iss_severity = sev, iss_status = ''pending'',
      iss_conflict_with = None, iss_superseded_by = None\<rparr>"

section \<open>Segmenter (services/chunker.py)\<close>

subsection \<open>More Python primitives\<close>

text \<open>\<^verbatim>\<open>content.splitlines()\<close>: the lines without their terminators.\<close>

definition splitlines :: "string \<Rightarrow> string list" where
  "splitlines content =
     map (takeWhile (\<lambda>c. \<not> is_line_boundary c)) (splitlines_keepends content)"

text \<open>\<^verbatim>\<open>'\n'.join(xs)\<close>.\<close>

fun join_nl :: "string list \<Rightarrow> string" where
  "join_nl [] = []"
| "join_nl [x] = x"
| "join_nl (x # y # ys) = x @ [CHR 0x0A] @ join_nl (y # ys)"

text \<open>
  A slice bound: negative bounds count from the end, and bounds outside the list
  are clamped. \<^verbatim>\<open>xs[a:b]\<close> and \<^verbatim>\<open>xs[i]\<close> (\<open>None\<close> stands for \<^verbatim>\<open>IndexError\<close>).
\<close>

definition slice_bound :: "int \<Rightarrow> int \<Rightarrow> int" where
  "slice_bound i n = (if i < 0 then max 0 (i + n) else min i n)"

definition py_slice :: "'a list \<Rightarrow> int \<Rightarrow> int \<Rightarrow> 'a list" where
  "py_slice xs a b =
     (let n = int (length xs); a' = slice_bound a n; b' = slice_bound b n
      in take (nat (b' - a')) (drop (nat a') xs))"

definition py_get :: "'a list \<Rightarrow> int \<Rightarrow> 'a option" where
  "py_get xs i =
     (let n = int (length xs); j = (if i < 0 then i + n else i)
      in if 0 \<le> j \<and> j < n then Some (xs ! nat j) else None)"

subsection \<open>The regular expressions of \<^verbatim>\<open>BLOCK_PATTERNS\<close>\<close>

text \<open>
  The patterns are sequences of four kinds of items: a literal character (compared
  without case, as under \<^verbatim>\<open>re.IGNORECASE\<close>), a character set \<^verbatim>\<open>[...]\<close>, \<^verbatim>\<open>[^c]*\<close> and
  \<^verbatim>\<open>\s+\<close>. \<open>re_match\<close> is \<^verbatim>\<open>re.match\<close> at the start of the text: greedy, with
  backtracking, it returns the length of the match.
\<close>

definition to_lower :: "char \<Rightarrow> char" where
  "to_lower c =
     (if 65 \<le> (of_char c :: nat) \<and> (of_char c :: nat) \<le> 90
      then char_of ((of_char c :: nat) + 32) else c)"

datatype atom = Lit char | OneOf "char list" | ManyNot char | Spaces

fun re_match :: "atom list \<Rightarrow> string \<Rightarrow> nat option" where
  "re_match [] s = Some 0"
| "re_match (Lit p # as) [] = None"
| "re_match (Lit p # as) (c # cs) =
     (if to_lower c = to_lower p then map_option Suc (re_match as cs) else None)"
| "re_match (OneOf ps # as) [] = None"
| "re_match (OneOf ps # as) (c # cs) =
     (if c \<in> set ps then map_option Suc (re_match as cs) else None)"
| "re_match (ManyNot x # as) [] = re_match as []"
| "re_match (ManyNot x # as) (c # cs) =
     (if c \<noteq> x
      then (case re_match (ManyNot x # as) cs of
              Some n \<Rightarrow> Some (Suc n)
            | None \<Rightarrow> re_match as (c # cs))
      else re_match as (c # cs))"
| "re_match (Spaces # as) [] = None"
| "re_match (Spaces # as) (c # cs) =
     (if isspace c
      then (case re_match (Spaces # as) cs of
              Some n \<Rightarrow> Some (Suc n)
            | None \<Rightarrow> map_option Suc (re_match as cs))
      else None)"

text \<open>\<^verbatim>\<open>re.search(pattern, s)\<close> as a truth value.\<close>

fun re_search :: "atom list \<Rightarrow> string \<Rightarrow> bool" where
  "re_search p [] = (re_match p [] \<noteq> None)"
| "re_search p (c # cs) = (re_match p (c # cs) \<noteq> None \<or> re_search p cs)"

text \<open>
  \<^verbatim>\<open>[m.start() for m in re.finditer(pattern, s)]\<close>: the matches do not overlap, so
  after a match of length \<open>n\<close> at offset \<open>off\<close> the next \<open>n - 1\<close> characters are
  skipped. The opening patterns begin with a literal and match no empty text.
\<close>

fun finditer_from :: "atom list \<Rightarrow> nat \<Rightarrow> nat \<Rightarrow> string \<Rightarrow> nat list" where
  "finditer_from p skip off [] = []"
| "finditer_from p skip off (c # cs) =
     (if skip > 0 then finditer_from p (skip - 1) (off + 1) cs
      else (case re_match p (c # cs) of
              Some n \<Rightarrow> off # finditer_from p (n - 1) (off + 1) cs
            | None \<Rightarrow> finditer_from p 0 (off + 1) cs))"

definition finditer :: "atom list \<Rightarrow> string \<Rightarrow> nat list" where
  "finditer p s = finditer_from p 0 0 s"

definition lits :: "string \<Rightarrow> atom list" where
  "lits s = map Lit s"

definition quote_chars :: "char list" where
  "quote_chars = [CHR 0x22, CHR 0x27]"

text \<open>The dictionary in its insertion order: name, opening pattern, closing pattern.\<close>

definition BLOCK_PATTERNS :: "(string \<times> atom list \<times> atom list) list" where
  "BLOCK_PATTERNS =
     [(''script'', lits ''<script'' @ [ManyNot (CHR ''>''), Lit (CHR ''>'')], lits ''</script>''),
      (''head'', lits ''<head'' @ [ManyNot (CHR ''>''), Lit (CHR ''>'')], lits ''</head>''),
      (''json_ld'',
         lits ''<script'' @ [Spaces] @ lits ''type='' @ [OneOf quote_chars]
           @ lits ''application/ld+json'' @ [OneOf quote_chars]
           @ [ManyNot (CHR ''>''), Lit (CHR ''>'')],
         lits ''</script>''),
      (''style'', lits ''<style'' @ [ManyNot (CHR ''>''), Lit (CHR ''>'')], lits ''</style>'')]"

subsection \<open>The chunker\<close>

record chunker =
  chunk_size :: int
  overlap :: int
  context_lines :: int

text \<open>The singleton instance at the end of the module.\<close>

definition the_chunker :: chunker where
  "the_chunker = \<lparr>chunk_size = 180, overlap = 20, context_lines = 10\<rparr>"

record chunk =
  ch_file_path :: string
  start_line :: int
  end_line :: int
  ch_content :: string
  context_head :: "string option"
  context_tail :: "string option"
  line_count :: int

datatype chunk_error = IndexError

text \<open>
  \<^verbatim>\<open>_find_closing_tag\<close> (its parameter \<^verbatim>\<open>start_line\<close> is \<open>from_line\<close> here): the loop
  over \<^verbatim>\<open>range(start_line, search_end)\<close>, \<open>n\<close> lines still to look at from line \<open>i\<close> on.
\<close>

fun closing_search :: "string list \<Rightarrow> atom list \<Rightarrow> int \<Rightarrow> nat \<Rightarrow> chunk_error + int option" where
  "closing_search lines close_pattern i 0 = Inr None"
| "closing_search lines close_pattern i (Suc n) =
     (case py_get lines i of
        None \<Rightarrow> Inl IndexError
      | Some l \<Rightarrow>
          if re_search close_pattern l then Inr (Some i)
          else closing_search lines close_pattern (i + 1) n)"

definition find_closing_tag ::
  "string list \<Rightarrow> int \<Rightarrow> atom list \<Rightarrow> int \<Rightarrow> int \<Rightarrow> chunk_error + int option" where
  "find_closing_tag lines from_line close_pattern total_lines max_search =
     (let search_end = min (from_line + max_search) total_lines
      in closing_search lines close_pattern from_line (nat (search_end - from_line)))"

text \<open>
  \<^verbatim>\<open>_expand_for_semantic_blocks\<close>: the body of the inner loop for one opening match
  at offset \<open>m\<close> of the chunk text, then the two loops over the patterns and their
  matches. The matches are those of the chunk text as it is before any expansion.
\<close>

definition expand_step ::
  "string list \<Rightarrow> int \<Rightarrow> int \<Rightarrow> string \<Rightarrow> chunk_error + int \<Rightarrow> nat \<times> atom list
     \<Rightarrow> chunk_error + int" where
  "expand_step lines start total_lines chunk_content acc mc =
     (case acc of
        Inl e \<Rightarrow> Inl e
      | Inr end \<Rightarrow>
          (let lines_before_match = int (count_list (take (fst mc) chunk_content) (CHR 0x0A));
               open_line = start + lines_before_match
           in case find_closing_tag lines open_line (snd mc) total_lines 100 of
                Inl e \<Rightarrow> Inl e
              | Inr None \<Rightarrow> Inr end
              | Inr (Some close_line) \<Rightarrow>
                  if close_line \<ge> end then Inr (min (close_line + 1) total_lines)
                  else Inr end))"

definition open_matches :: "string \<Rightarrow> (nat \<times> atom list) list" where
  "open_matches chunk_content =
     concat (map (\<lambda>(block_name, open_pattern, close_pattern).
                    map (\<lambda>m. (m, close_pattern)) (finditer open_pattern chunk_content))
                 BLOCK_PATTERNS)"

definition expand_for_semantic_blocks ::
  "string list \<Rightarrow> int \<Rightarrow> int \<Rightarrow> int \<Rightarrow> chunk_error + int" where
  "expand_for_semantic_blocks lines start end total_lines =
     (let chunk_content = join_nl (py_slice lines start end)
      in foldl (expand_step lines start total_lines chunk_content) (Inr end)
           (open_matches chunk_content))"

definition make_chunk :: "chunker \<Rightarrow> string \<Rightarrow> string list \<Rightarrow> int \<Rightarrow> int \<Rightarrow> chunk" where
  "make_chunk self file_path lines start end =
     (let total_lines = int (length lines);
          chunk_lines = py_slice lines start end;
          context_head_lines = py_slice lines (max 0 (start - context_lines self)) start;
          context_tail_lines = py_slice lines end (min total_lines (end + context_lines self))
      in \<lparr>ch_file_path = file_path, start_line = start + 1, end_line = end,
          ch_content = join_nl chunk_lines,
          context_head = (if context_head_lines \<noteq> [] then Some (join_nl context_head_lines)
                          else None),
          context_tail = (if context_tail_lines \<noteq> [] then Some (join_nl context_tail_lines)
                          else None),
          line_count = int (length chunk_lines)\<rparr>)"

text \<open>
  The \<^verbatim>\<open>while\<close> loop of \<^verbatim>\<open>chunk_file\<close>. With an overlap that is not smaller than the
  chunk size the loop does not advance, so the loop is a partial function: \<open>None\<close>
  means that it does not return.
\<close>

partial_function (option) chunk_loop ::
  "chunker \<Rightarrow> string \<Rightarrow> string list \<Rightarrow> int \<Rightarrow> chunk list \<Rightarrow> (chunk_error + chunk list) option"
  where
  "chunk_loop self file_path lines start chunks =
     (let total_lines = int (length lines) in
      if start < total_lines then
        (case expand_for_semantic_blocks lines start
                (min (start + chunk_size self) total_lines) total_lines of
           Inl e \<Rightarrow> Some (Inl e)
         | Inr end \<Rightarrow>
             (let chunks' = chunks @ [make_chunk self file_path lines start end];
                  start' = end - overlap self
              in if start' \<ge> total_lines \<or> end \<ge> total_lines then Some (Inr chunks')
                 else chunk_loop self file_path lines start' chunks'))
      else Some (Inr chunks))"

declare chunk_loop.simps [code]

definition chunk_lines_of :: "chunker \<Rightarrow> string \<Rightarrow> string list \<Rightarrow> (chunk_error + chunk list) option"
  where
  "chunk_lines_of self file_path lines =
     (if length lines = 0 then Some (Inr []) else chunk_loop self file_path lines 0 [])"

definition chunk_file :: "chunker \<Rightarrow> string \<Rightarrow> string \<Rightarrow> (chunk_error + chunk list) option" where
  "chunk_file self file_path content = chunk_lines_of self file_path (splitlines content)"

text \<open>The text of a file given by its lines, each ended by a line feed.\<close>

definition lines_text :: "string list \<Rightarrow> string" where
  "lines_text ls = concat (map (\<lambda>l. l @ [CHR 0x0A]) ls)"

text \<open>
  A page of 250 lines with two script blocks back to back: the first spans lines
  160 to 170, the second opens on line 170, right after the first one's closing
  tag, and closes on line 210. All other lines are blank.
\<close>

definition two_script_lines :: "string list" where
  "two_script_lines =
     replicate 159 [] @ [''<script>''] @ replicate 9 [] @ [''</script><script>'']
       @ replicate 39 [] @ [''</script>''] @ replicate 40 []"

text \<open>
  A page of 250 lines with one script block: the opening tag alone on line 170,
  the closing tag alone on line 210, all other lines blank.
\<close>

definition one_script_lines :: "string list" where
  "one_script_lines =
     replicate 169 [] @ [''<script>''] @ replicate 39 [] @ [''</script>''] @ replicate 40 []"

text \<open>
  With chunk size 180 and overlap 20 the \<open>k\<close>-th tentative segment starts at index
  \<open>160 * k\<close>; \<open>segment_count N\<close> is the number of segments of a file of \<open>N\<close> lines.
\<close>

definition segment_count :: "int \<Rightarrow> nat" where
  "segment_count N = nat (max 0 ((N - 21) div 160)) + 1"

definition tentative_end :: "int \<Rightarrow> nat \<Rightarrow> int" where
  "tentative_end N k = min (160 * int k + 180) N"

section \<open>Files, paths and the clock\<close>

text \<open>
  The file system as the services see it: the content of every regular file by path,
  and a log of the writes (the destination path of each, oldest first) so that
  overwrites can be counted. \<open>ticks\<close> counts the readings of the clock. Directories,
  permissions, encodings and partial writes are not modelled: a copy or a write
  either happens as a whole or fails without effect.
\<close>

record world =
  files :: "string \<rightharpoonup> string"
  writes :: "string list"
  ticks :: nat

text \<open>
  What the services take from their surroundings: the time stamp
  \<^verbatim>\<open>datetime.now().strftime("%Y%m%d_%H%M%S")\<close> at each reading of the clock; the verdict
  of \<^verbatim>\<open>php -l\<close> and of the BeautifulSoup check on a file's content (both outside this
  repository).
\<close>

record env =
  clock :: "nat \<Rightarrow> string"
  php_lint :: "string \<Rightarrow> bool \<times> string option"
  html_check :: "string \<Rightarrow> bool \<times> string option"

datatype error =
    FileNotFound string
  | SameFileError string
  | PatchError patch_error
  | Raised string
  | InvalidRequestError
  | SandboxPatchFailed error
  | FailedToApplyPatch error

text \<open>
  A file opened in text mode is read with universal newlines: a carriage return
  followed by a line feed, and a carriage return alone, arrive as one line feed.
\<close>

fun universal_newlines :: "string \<Rightarrow> string" where
  "universal_newlines [] = []"
| "universal_newlines [c] = (if c = CHR 0x0D then [CHR 0x0A] else [c])"
| "universal_newlines (c # d # ds) =
     (if c = CHR 0x0D \<and> d = CHR 0x0A then CHR 0x0A # universal_newlines ds
      else if c = CHR 0x0D then CHR 0x0A # universal_newlines (d # ds)
      else c # universal_newlines (d # ds))"

text \<open>
  \<^verbatim>\<open>shutil.copy2(src, dst)\<close> copies the bytes; \<^verbatim>\<open>open(p, 'r').read()\<close> reads in text mode;
  \<^verbatim>\<open>open(p, 'w').write(c)\<close> writes in text mode where the line separator is the line
  feed (the service runs in a Linux container), so the text is written as it is;
  \<^verbatim>\<open>Path(p).unlink()\<close>.
\<close>

definition copy2 :: "string \<Rightarrow> string \<Rightarrow> world \<Rightarrow> error + world" where
  "copy2 src dst w =
     (case files w src of
        None \<Rightarrow> Inl (FileNotFound src)
      | Some c \<Rightarrow>
          if src = dst then Inl (SameFileError src)
          else Inr (w\<lparr>files := (files w)(dst \<mapsto> c), writes := writes w @ [dst]\<rparr>))"

definition read_file :: "string \<Rightarrow> world \<Rightarrow> error + string" where
  "read_file p w =
     (case files w p of
        None \<Rightarrow> Inl (FileNotFound p)
      | Some c \<Rightarrow> Inr (universal_newlines c))"

definition write_file :: "string \<Rightarrow> string \<Rightarrow> world \<Rightarrow> world" where
  "write_file p c w = w\<lparr>files := (files w)(p \<mapsto> c), writes := writes w @ [p]\<rparr>"

definition unlink :: "string \<Rightarrow> world \<Rightarrow> world" where
  "unlink p w = w\<lparr>files := (files w)(p := None)\<rparr>"

text \<open>How often a path has been written.\<close>

definition write_count :: "string \<Rightarrow> world \<Rightarrow> nat" where
  "write_count p w = count_list (writes w) p"

text \<open>\<^verbatim>\<open>Path(p).name\<close>, \<^verbatim>\<open>.suffix\<close> and \<^verbatim>\<open>.stem\<close> of pathlib, for paths written with \<^verbatim>\<open>/\<close>.\<close>

definition path_name :: "string \<Rightarrow> string" where
  "path_name p = rev (takeWhile (\<lambda>c. c \<noteq> CHR ''/'') (rev p))"

definition path_suffix :: "string \<Rightarrow> string" where
  "path_suffix p =
     (let name = path_name p;
          after = rev (takeWhile (\<lambda>c. c \<noteq> CHR ''.'') (rev name))
      in if CHR ''.'' \<in> set name \<and> after \<noteq> [] \<and> length after + 1 < length name
         then CHR ''.'' # after else [])"

definition path_stem :: "string \<Rightarrow> string" where
  "path_stem p = take (length (path_name p) - length (path_suffix p)) (path_name p)"

definition lower :: "string \<Rightarrow> string" where
  "lower s = map to_lower s"

section \<open>Patch engine: files (services/patch\_engine.py)\<close>

record patch_engine =
  backup_dir :: string

text \<open>A result triple \<^verbatim>\<open>(success, backup_path, error_message)\<close>.\<close>

type_synonym patch_result = "bool \<times> string option \<times> error option"

definition create_backup :: "env \<Rightarrow> patch_engine \<Rightarrow> string \<Rightarrow> world \<Rightarrow> (error + string) \<times> world"
  where
  "create_backup e self file_path w =
     (let timestamp = clock e (ticks w);
          w1 = w\<lparr>ticks := ticks w + 1\<rparr>;
          backup_name = path_stem file_path @ ''_'' @ timestamp @ path_suffix file_path @ ''.bak'';
          backup_path = backup_dir self @ ''/'' @ backup_name
      in case copy2 file_path backup_path w1 of
           Inl err \<Rightarrow> (Inl err, w1)
         | Inr w2 \<Rightarrow> (Inr backup_path, w2))"

definition rollback :: "string \<Rightarrow> string \<Rightarrow> world \<Rightarrow> bool \<times> world" where
  "rollback file_path backup_path w =
     (case copy2 backup_path file_path w of
        Inl err \<Rightarrow> (False, w)
      | Inr w' \<Rightarrow> (True, w'))"

definition patched_content_for ::
  "string \<Rightarrow> string \<Rightarrow> int \<Rightarrow> string \<Rightarrow> string \<Rightarrow> patch_error + string" where
  "patched_content_for file_type original_content line_number action code =
     (if file_type \<in> set [''.php'', ''.html'', ''.htm'']
      then apply_dom_patch original_content line_number action code
      else apply_line_patch original_content line_number action code)"

text \<open>
  \<^verbatim>\<open>apply_patch\<close>: every exception is caught; when the backup exists already, the
  handler rolls the file back from it.
\<close>

definition apply_patch ::
  "env \<Rightarrow> patch_engine \<Rightarrow> string \<Rightarrow> int \<Rightarrow> string \<Rightarrow> string \<Rightarrow> string option \<Rightarrow> world
     \<Rightarrow> patch_result \<times> world" where
  "apply_patch e self file_path line_number action code file_type w =
     (case create_backup e self file_path w of
        (Inl err, w1) \<Rightarrow> ((False, None, Some (FailedToApplyPatch err)), w1)
      | (Inr backup_path, w1) \<Rightarrow>
          (case read_file file_path w1 of
             Inl err \<Rightarrow>
               ((False, None, Some (FailedToApplyPatch err)), snd (rollback file_path backup_path w1))
           | Inr original_content \<Rightarrow>
               (let ft = (case file_type of None \<Rightarrow> lower (path_suffix file_path) | Some t \<Rightarrow> t)
                in case patched_content_for ft original_content line_number action code of
                     Inl perr \<Rightarrow>
                       ((False, None, Some (FailedToApplyPatch (PatchError perr))),
                        snd (rollback file_path backup_path w1))
                   | Inr patched_content \<Rightarrow>
                       ((True, Some backup_path, None),
                        write_file file_path patched_content w1))))"

text \<open>
  \<^verbatim>\<open>validate_patch\<close>. The PHP and HTML checks run tools outside the repository on the
  file; the JavaScript check only reads the file.
\<close>

definition validate_patch :: "env \<Rightarrow> string \<Rightarrow> string \<Rightarrow> world \<Rightarrow> bool \<times> error option" where
  "validate_patch e file_path file_type w =
     (if file_type = ''.php'' then
        (case files w file_path of
           None \<Rightarrow> (False, Some (FileNotFound file_path))
         | Some c \<Rightarrow> (fst (php_lint e c), map_option Raised (snd (php_lint e c))))
      else if file_type \<in> set [''.html'', ''.htm''] then
        (case read_file file_path w of
           Inl err \<Rightarrow> (False, Some err)
         | Inr c \<Rightarrow> (fst (html_check e c), map_option Raised (snd (html_check e c))))
      else if file_type \<in> set [''.js'', ''.jsx'', ''.ts'', ''.tsx''] then
        (case read_file file_path w of
           Inl err \<Rightarrow> (False, Some err)
         | Inr c \<Rightarrow> (True, None))
      else (True, None))"

section \<open>Sandbox (services/patch\_sandbox.py)\<close>

record patch_sandbox =
  sandbox_dir :: string
  sandbox_id :: string

text \<open>
  The callables handed to the sandbox. They take the scratch path and run in the
  same file system as everything else; they may raise.
\<close>

type_synonym patch_func = "string \<Rightarrow> world \<Rightarrow> (error + patch_result) \<times> world"
type_synonym validate_func = "string \<Rightarrow> world \<Rightarrow> (error + bool \<times> error option) \<times> world"

definition temp_path_of :: "patch_sandbox \<Rightarrow> string \<Rightarrow> string" where
  "temp_path_of self original_path =
     sandbox_dir self @ ''/'' @ path_stem original_path @ ''_temp_'' @ sandbox_id self
       @ path_suffix original_path"

definition create_temp_copy :: "patch_sandbox \<Rightarrow> string \<Rightarrow> world \<Rightarrow> error + string \<times> world"
  where
  "create_temp_copy self original_path w =
     (case copy2 original_path (temp_path_of self original_path) w of
        Inl err \<Rightarrow> Inl err
      | Inr w' \<Rightarrow> Inr (temp_path_of self original_path, w'))"

definition apply_and_validate ::
  "patch_sandbox \<Rightarrow> string \<Rightarrow> patch_func \<Rightarrow> validate_func \<Rightarrow> world
     \<Rightarrow> (bool \<times> string option \<times> error option) \<times> world" where
  "apply_and_validate self original_path patch_fn validate_fn w =
     (case create_temp_copy self original_path w of
        Inl err \<Rightarrow> ((False, None, Some (SandboxPatchFailed err)), w)
      | Inr (temp_path, w1) \<Rightarrow>
          (case patch_fn temp_path w1 of
             (Inl err, w2) \<Rightarrow> ((False, Some temp_path, Some (SandboxPatchFailed err)), w2)
           | (Inr (success, backup_path, err), w2) \<Rightarrow>
               if \<not> success then ((False, Some temp_path, err), w2)
               else
                 (case validate_fn temp_path w2 of
                    (Inl err, w3) \<Rightarrow> ((False, Some temp_path, Some (SandboxPatchFailed err)), w3)
                  | (Inr (is_valid, validation_error), w3) \<Rightarrow>
                      if \<not> is_valid then ((False, Some temp_path, validation_error), w3)
                      else
                        (case copy2 temp_path original_path w3 of
                           Inl err \<Rightarrow>
                             ((False, Some temp_path, Some (SandboxPatchFailed err)), w3)
                         | Inr w4 \<Rightarrow> ((True, Some temp_path, None), w4)))))"

definition cleanup_temp :: "string option \<Rightarrow> world \<Rightarrow> world" where
  "cleanup_temp temp_path w =
     (case temp_path of
        None \<Rightarrow> w
      | Some p \<Rightarrow> if p \<noteq> [] \<and> files w p \<noteq> None then unlink p w else w)"

text \<open>A step from \<open>w\<close> to \<open>w'\<close> that neither changes nor writes the file at \<open>p\<close>.\<close>

definition leaves_untouched :: "string \<Rightarrow> world \<Rightarrow> world \<Rightarrow> bool" where
  "leaves_untouched p w w' \<longleftrightarrow> files w' p = files w p \<and> write_count p w' = write_count p w"

section \<open>Batch approval and rollback (routers/patches.py)\<close>

text \<open>
  The rows of the tables \<^verbatim>\<open>issues\<close> and \<^verbatim>\<open>patch_history\<close> that the two routes read and
  write, and the state they work on: the files, the database, the process-wide
  breaker, and whether the transaction of the request's session has begun. A patch
  history row's id is its position in the list.
\<close>

datatype issue_status = PENDING | APPROVED | REJECTED | APPLIED | FAILED | SUPERSEDED | CONFLICT

record issue_row =
  row_job_id :: string
  row_file_path :: string
  row_line_number :: int
  row_action :: string
  row_code :: string
  row_status :: issue_status
  row_backup_path :: "string option"

record patch_history_row =
  ph_issue_id :: int
  ph_job_id :: string
  ph_file_path :: string
  ph_backup_path :: string
  ph_original_content :: string
  ph_patched_content :: string
  ph_success :: bool
  ph_rollback_available :: bool

record database =
  issues :: "int \<rightharpoonup> issue_row"
  patch_history :: "patch_history_row list"

record app_state =
  fs :: world
  db :: database
  circuit_breaker :: breaker
  in_transaction :: bool

text \<open>
  The \<^verbatim>\<open>AsyncSession\<close> of a request, as far as the routes use it. \<^verbatim>\<open>get_db\<close> hands every
  request a session of its own and closes it afterwards. database.py builds the
  sessions with SQLAlchemy's default \<^verbatim>\<open>autobegin\<close>: the first statement executed on a
  session begins its transaction, and \<^verbatim>\<open>begin()\<close> on a session whose transaction has
  begun raises \<^verbatim>\<open>InvalidRequestError\<close>; \<^verbatim>\<open>commit()\<close> and \<^verbatim>\<open>close()\<close> end the
  transaction. A statement writes its table at once here; what closing a session
  without a commit would undo is not tracked.
\<close>

definition session_open :: "app_state \<Rightarrow> app_state" where
  "session_open st = st\<lparr>in_transaction := False\<rparr>"

definition session_execute :: "app_state \<Rightarrow> app_state" where
  "session_execute st = st\<lparr>in_transaction := True\<rparr>"

definition session_begin :: "app_state \<Rightarrow> error + app_state" where
  "session_begin st =
     (if in_transaction st then Inl InvalidRequestError
      else Inr (st\<lparr>in_transaction := True\<rparr>))"

definition session_commit :: "app_state \<Rightarrow> app_state" where
  "session_commit st = st\<lparr>in_transaction := False\<rparr>"

definition session_close :: "app_state \<Rightarrow> app_state" where
  "session_close st = st\<lparr>in_transaction := False\<rparr>"

record issue_approval =
  issue_ids :: "int list"
  edited_code :: "string option"

text \<open>
  The entries of \<^verbatim>\<open>results\<close>, by their \<^verbatim>\<open>status\<close> key; a \<^verbatim>\<open>circuit_breaker_tripped\<close>
  entry carries its message.
\<close>

datatype approval_result =
    NotFoundResult int
  | CircuitBreakerTripped int string
  | AppliedResult int string
  | TransactionFailed int error
  | FailedResult int "error option" breaker_status

text \<open>How one pass of the loop body ends: \<^verbatim>\<open>continue\<close> or falling through, \<^verbatim>\<open>break\<close>, or
  an exception that leaves the loop.\<close>

datatype step_outcome = Continue approval_result | Break approval_result | Raise error

definition last_dot_segment :: "string \<Rightarrow> string" where
  "last_dot_segment s = rev (takeWhile (\<lambda>c. c \<noteq> CHR ''.'') (rev s))"

definition apply_patch_wrapper ::
  "env \<Rightarrow> patch_engine \<Rightarrow> issue_row \<Rightarrow> string \<Rightarrow> patch_func" where
  "apply_patch_wrapper e engine issue code_to_apply =
     (\<lambda>temp_path w.
        case apply_patch e engine temp_path (row_line_number issue) (row_action issue)
               code_to_apply None w of
          (r, w') \<Rightarrow> (Inr r, w'))"

definition validate_wrapper :: "env \<Rightarrow> validate_func" where
  "validate_wrapper e =
     (\<lambda>temp_path w. (Inr (validate_patch e temp_path (''.'' @ last_dot_segment temp_path) w), w))"

definition set_issue :: "int \<Rightarrow> (issue_row \<Rightarrow> issue_row) \<Rightarrow> database \<Rightarrow> database" where
  "set_issue issue_id f d =
     d\<lparr>issues := (case issues d issue_id of
                     None \<Rightarrow> issues d
                   | Some r \<Rightarrow> (issues d)(issue_id \<mapsto> f r))\<rparr>"

text \<open>
  \<^verbatim>\<open>approval.edited_code if approval.edited_code else issue.code\<close>, and the call of
  the sandbox with the two wrappers.
\<close>

definition code_to_apply :: "issue_approval \<Rightarrow> issue_row \<Rightarrow> string" where
  "code_to_apply approval issue =
     (case edited_code approval of
        None \<Rightarrow> row_code issue
      | Some c \<Rightarrow> if c \<noteq> [] then c else row_code issue)"

definition sandboxed_patch ::
  "env \<Rightarrow> patch_sandbox \<Rightarrow> patch_engine \<Rightarrow> issue_approval \<Rightarrow> issue_row \<Rightarrow> world
     \<Rightarrow> (bool \<times> string option \<times> error option) \<times> world" where
  "sandboxed_patch e sandbox engine approval issue w =
     apply_and_validate sandbox (row_file_path issue)
       (apply_patch_wrapper e engine issue (code_to_apply approval issue))
       (validate_wrapper e) w"

text \<open>
  The body of the loop of \<^verbatim>\<open>approve_issues\<close> for one issue id. It starts with the
  \<^verbatim>\<open>select\<close> of the issue. The breaker is asked twice in a row, each time ending the
  pass with \<^verbatim>\<open>continue\<close>. In the branch of a successful patch every exception is
  caught and counted as a failure, the value of \<^verbatim>\<open>record_failure\<close> is dropped and the
  scratch file stays; in the branch of a failed patch an exception of
  \<^verbatim>\<open>async with db.begin()\<close> leaves the loop.
\<close>

definition transaction_failed :: "int \<Rightarrow> issue_row \<Rightarrow> app_state \<Rightarrow> error \<Rightarrow> world
     \<Rightarrow> step_outcome \<times> app_state" where
  "transaction_failed issue_id issue st x w =
     (Continue (TransactionFailed issue_id x),
      st\<lparr>fs := w,
         circuit_breaker := snd (record_failure (row_job_id issue) (circuit_breaker st))\<rparr>)"

definition record_applied ::
  "int \<Rightarrow> issue_row \<Rightarrow> string \<Rightarrow> string \<Rightarrow> string \<Rightarrow> database \<Rightarrow> database" where
  "record_applied issue_id issue backup_path original_content patched_content d =
     (set_issue issue_id
        (\<lambda>r. r\<lparr>row_status := APPLIED, row_backup_path := Some backup_path\<rparr>) d)
     \<lparr>patch_history := patch_history d @
        [\<lparr>ph_issue_id = issue_id, ph_job_id = row_job_id issue,
          ph_file_path = row_file_path issue, ph_backup_path = backup_path,
          ph_original_content = original_content, ph_patched_content = patched_content,
          ph_success = True, ph_rollback_available = True\<rparr>]\<rparr>"

definition tripped_message :: "string \<Rightarrow> string" where
  "tripped_message job_id =
     ''Circuit breaker tripped for job '' @ job_id @ ''. Too many failures.''"

definition approve_one ::
  "env \<Rightarrow> patch_sandbox \<Rightarrow> patch_engine \<Rightarrow> issue_approval \<Rightarrow> int \<Rightarrow> app_state
     \<Rightarrow> step_outcome \<times> app_state" where
  "approve_one e sandbox engine approval issue_id st0 =
     (let st = session_execute st0 in
      case issues (db st) issue_id of
        None \<Rightarrow> (Continue (NotFoundResult issue_id), st)
      | Some issue \<Rightarrow>
          if is_tripped (row_job_id issue) (circuit_breaker st)
          then (Continue (CircuitBreakerTripped issue_id (tripped_message (row_job_id issue))),
                st)
          else if is_tripped (row_job_id issue) (circuit_breaker st)
          then (Continue (CircuitBreakerTripped issue_id ''Too many failures, auto-stopped''),
                st)
          else
            (case sandboxed_patch e sandbox engine approval issue (fs st) of
               ((success, temp_path, err), w1) \<Rightarrow>
                 if success then
                   (case create_backup e engine (row_file_path issue) w1 of
                      (Inl x, w2) \<Rightarrow> transaction_failed issue_id issue st x w2
                    | (Inr backup_path, w2) \<Rightarrow>
                        (case read_file (row_file_path issue) w2 of
                           Inl x \<Rightarrow> transaction_failed issue_id issue st x w2
                         | Inr patched_content \<Rightarrow>
                             (case read_file backup_path w2 of
                                Inl x \<Rightarrow> transaction_failed issue_id issue st x w2
                              | Inr original_content \<Rightarrow>
                                  (case session_begin st of
                                     Inl x \<Rightarrow> transaction_failed issue_id issue st x w2
                                   | Inr st1 \<Rightarrow>
                                       (Continue (AppliedResult issue_id backup_path),
                                        session_commit
                                          (st1\<lparr>fs := cleanup_temp temp_path w2,
                                               db := record_applied issue_id issue backup_path
                                                       original_content patched_content (db st1),
                                               circuit_breaker :=
                                                 record_success (row_job_id issue)
                                                   (circuit_breaker st1)\<rparr>))))))
                 else
                   (case record_failure (row_job_id issue) (circuit_breaker st) of
                      (should_stop, cb1) \<Rightarrow>
                        (case session_begin st of
                           Inl x \<Rightarrow> (Raise x, st\<lparr>fs := w1, circuit_breaker := cb1\<rparr>)
                         | Inr st1 \<Rightarrow>
                             (let r = FailedResult issue_id err
                                        (get_status (row_job_id issue) cb1);
                                  st' = session_commit
                                          (st1\<lparr>fs := cleanup_temp temp_path w1,
                                               db := set_issue issue_id
                                                       (\<lambda>r. r\<lparr>row_status := FAILED\<rparr>) (db st1),
                                               circuit_breaker := cb1\<rparr>)
                              in (if should_stop then Break r else Continue r, st'))))))"

fun approve_loop ::
  "env \<Rightarrow> patch_sandbox \<Rightarrow> patch_engine \<Rightarrow> issue_approval \<Rightarrow> int list \<Rightarrow> app_state
     \<Rightarrow> approval_result list \<Rightarrow> (error + approval_result list) \<times> app_state" where
  "approve_loop e sandbox engine approval [] st results = (Inr results, st)"
| "approve_loop e sandbox engine approval (issue_id # rest) st results =
     (case approve_one e sandbox engine approval issue_id st of
        (Raise x, st') \<Rightarrow> (Inl x, st')
      | (Break r, st') \<Rightarrow> (Inr (results @ [r]), st')
      | (Continue r, st') \<Rightarrow> approve_loop e sandbox engine approval rest st' (results @ [r]))"

text \<open>
  \<^verbatim>\<open>approve_issues\<close>: the loop on a session of its own, then the commit and the total
  with the results, or the HTTP 500 of the outer handler.
\<close>

definition approve_issues ::
  "env \<Rightarrow> patch_sandbox \<Rightarrow> patch_engine \<Rightarrow> issue_approval \<Rightarrow> app_state
     \<Rightarrow> (error + nat \<times> approval_result list) \<times> app_state" where
  "approve_issues e sandbox engine approval st =
     (case approve_loop e sandbox engine approval (issue_ids approval) (session_open st) [] of
        (Inl x, st') \<Rightarrow> (Inl x, session_close st')
      | (Inr results, st') \<Rightarrow>
          (Inr (length (issue_ids approval), results), session_close (session_commit st')))"

text \<open>
  \<^verbatim>\<open>rollback_patch\<close>. Each failure is raised inside the route's \<^verbatim>\<open>try\<close> and leaves it
  as an HTTP 500.
\<close>

datatype rollback_error =
    PatchHistoryNotFound | MultipleResultsFound | RollbackNotAvailable | RollbackFailed

definition rollback_patch :: "int \<Rightarrow> app_state \<Rightarrow> (rollback_error + int) \<times> app_state" where
  "rollback_patch issue_id st0 =
     (let st = session_execute (session_open st0) in
      case filter (\<lambda>h. ph_issue_id h = issue_id) (patch_history (db st)) of
        [] \<Rightarrow> (Inl PatchHistoryNotFound, session_close st)
      | [history] \<Rightarrow>
          if \<not> ph_rollback_available history
          then (Inl RollbackNotAvailable, session_close st)
          else
            (case rollback (ph_file_path history) (ph_backup_path history) (fs st) of
               (True, w') \<Rightarrow>
                 (Inr issue_id,
                  session_close (session_commit
                    (st\<lparr>fs := w',
                        db := (set_issue issue_id (\<lambda>r. r\<lparr>row_status := PENDING\<rparr>) (db st))
                              \<lparr>patch_history :=
                                 map (\<lambda>h. if ph_issue_id h = issue_id
                                           then h\<lparr>ph_rollback_available := False\<rparr> else h)
                                     (patch_history (db st))\<rparr>\<rparr>)))
             | (False, w') \<Rightarrow> (Inl RollbackFailed, session_close (st\<lparr>fs := w'\<rparr>)))
      | _ \<Rightarrow> (Inl MultipleResultsFound, session_close st))"

text \<open>
  A deployment for the examples: the clock stands still and the outside checkers
  accept everything.
\<close>

definition quiet_env :: env where
  "quiet_env = \<lparr>clock = (\<lambda>n. ''20240101_120000''),
                php_lint = (\<lambda>c. (True, None)),
                html_check = (\<lambda>c. (True, None))\<rparr>"

definition the_sandbox :: patch_sandbox where
  "the_sandbox = \<lparr>sandbox_dir = ''/tmp/seo_checker_sandbox'', sandbox_id = ''1''\<rparr>"

definition the_engine :: patch_engine where
  "the_engine = \<lparr>backup_dir = ''/app/backups''\<rparr>"

text \<open>An issue that replaces line 1 of a one-line JavaScript file, approved for job J1.\<close>

definition one_edit_state :: app_state where
  "one_edit_state =
     \<lparr>fs = \<lparr>files = [''/app/workspace/j1/app.js'' \<mapsto> ''let a = 1;'' @ [CHR 0x0A]],
             writes = [], ticks = 0\<rparr>,
      db = \<lparr>issues = [1 \<mapsto> \<lparr>row_job_id = ''J1'', row_file_path = ''/app/workspace/j1/app.js'',
                              row_line_number = 1, row_action = ''replace_line'',
                              row_code = ''let a = 2;'', row_status = APPROVED,
                              row_backup_path = None\<rparr>],
             patch_history = []\<rparr>,
      circuit_breaker = breaker_init,
      in_transaction = False\<rparr>"

text \<open>
  A batch of one job that trips the breaker on its way: job J1 has four failures on
  record, and its approved issues 1, 2 and 3 each add a note after line 1 of the
  same one-line file.
\<close>

definition tripping_batch_state :: app_state where
  "tripping_batch_state =
     \<lparr>fs = \<lparr>files = [''/app/workspace/j1/a.js'' \<mapsto> ''a'' @ [CHR 0x0A]],
             writes = [], ticks = 0\<rparr>,
      db = \<lparr>issues =
               [1 \<mapsto> \<lparr>row_job_id = ''J1'', row_file_path = ''/app/workspace/j1/a.js'',
                       row_line_number = 1, row_action = ''annotate'', row_code = ''n'',
                       row_status = APPROVED, row_backup_path = None\<rparr>,
                2 \<mapsto> \<lparr>row_job_id = ''J1'', row_file_path = ''/app/workspace/j1/a.js'',
                       row_line_number = 1, row_action = ''annotate'', row_code = ''m'',
                       row_status = APPROVED, row_backup_path = None\<rparr>,
                3 \<mapsto> \<lparr>row_job_id = ''J1'', row_file_path = ''/app/workspace/j1/a.js'',
                       row_line_number = 1, row_action = ''annotate'', row_code = ''k'',
                       row_status = APPROVED, row_backup_path = None\<rparr>],
             patch_history = []\<rparr>,
      circuit_breaker = breaker_run (replicate 4 (RecordFailure ''J1'')) breaker_init,
      in_transaction = False\<rparr>"

section \<open>Properties of the failure breaker\<close>

lemma breaker_step_failures_nonneg:
  "0 \<le> failures b k \<Longrightarrow> 0 \<le> failures (breaker_step c b) k"
  by (cases c)
     (auto simp: record_failure_def record_success_def reset_def Let_def)

lemma breaker_run_failures_nonneg:
  "0 \<le> failures b k \<Longrightarrow> 0 \<le> failures (breaker_run cs b) k"
  by (induction cs arbitrary: b) (auto intro: breaker_step_failures_nonneg)

lemma breaker_reachable_nonneg: "0 \<le> failures (breaker_run cs breaker_init) k"
  by (rule breaker_run_failures_nonneg) (simp add: breaker_init_def)

lemma record_failure_count:
  "failures (snd (record_failure k b)) k = failures b k + 1"
  by (simp add: record_failure_def Let_def)

lemma record_failure_trips:
  "FAILURE_THRESHOLD \<le> failures b k + 1 \<Longrightarrow> tripped (snd (record_failure k b)) k"
  by (simp add: record_failure_def Let_def)

lemma five_failures_trip:
  assumes "0 \<le> failures b k"
  shows "is_tripped k (breaker_run (replicate 5 (RecordFailure k)) b)"
proof -
  define b4 where "b4 = breaker_run (replicate 4 (RecordFailure k)) b"
  have cnt: "failures (breaker_run (replicate n (RecordFailure k)) b) k = failures b k + int n"
    for n
    by (induction n arbitrary: b) (simp_all add: record_failure_count)
  have "failures b4 k = failures b k + 4"
    unfolding b4_def using cnt [of 4] by simp
  then have "FAILURE_THRESHOLD \<le> failures b4 k + 1"
    using assms by (simp add: FAILURE_THRESHOLD_def)
  then have "tripped (snd (record_failure k b4)) k"
    by (rule record_failure_trips)
  moreover have "breaker_run (replicate 5 (RecordFailure k)) b
                  = breaker_run [RecordFailure k] b4"
  proof -
    have "replicate 5 (RecordFailure k) = replicate 4 (RecordFailure k) @ [RecordFailure k]"
      by (simp add: numeral_eq_Suc)
    moreover have "breaker_run (xs @ ys) s = breaker_run ys (breaker_run xs s)" for xs ys s
      by (induction xs arbitrary: s) simp_all
    ultimately show ?thesis by (simp add: b4_def)
  qed
  ultimately show ?thesis by (simp add: is_tripped_def)
qed

lemma breaker_step_keeps_trip:
  "c \<noteq> Reset k \<Longrightarrow> tripped b k \<Longrightarrow> tripped (breaker_step c b) k"
  by (cases c)
     (auto simp: record_failure_def record_success_def reset_def Let_def)

text \<open>
  Claim C3 (breaker one-way latch). In every state \<open>b\<close> that some sequence of calls
  reaches from the freshly constructed breaker, and for every key \<open>k\<close>: five
  consecutive \<^verbatim>\<open>record_failure(k)\<close> calls leave \<^verbatim>\<open>is_tripped(k)\<close> true; when \<open>k\<close> is
  tripped, \<^verbatim>\<open>record_success(k)\<close> sets the failure counter to 0 and leaves
  \<^verbatim>\<open>is_tripped(k)\<close> true; every call other than \<^verbatim>\<open>reset(k)\<close> leaves a tripped
  \<open>k\<close> tripped, and \<^verbatim>\<open>reset(k)\<close> clears it.
\<close>

theorem breaker_latch:
  fixes cs :: "breaker_call list" and k :: string and c :: breaker_call
  defines "b \<equiv> breaker_run cs breaker_init"
  shows "is_tripped k (breaker_run (replicate 5 (RecordFailure k)) b)
       \<and> (is_tripped k b \<longrightarrow>
            get_failure_count k (record_success k b) = 0 \<and> is_tripped k (record_success k b))
       \<and> (is_tripped k b \<longrightarrow> c \<noteq> Reset k \<longrightarrow> is_tripped k (breaker_step c b))
       \<and> \<not> is_tripped k (breaker_step (Reset k) b)"
proof -
  have nn: "0 \<le> failures b k"
    unfolding b_def by (rule breaker_reachable_nonneg)
  have p1: "is_tripped k (breaker_run (replicate 5 (RecordFailure k)) b)"
    using nn by (rule five_failures_trip)
  have p2: "get_failure_count k (record_success k b) = 0"
    using nn by (auto simp: get_failure_count_def record_success_def)
  have p3: "is_tripped k b \<Longrightarrow> is_tripped k (record_success k b)"
    by (simp add: is_tripped_def record_success_def)
  have p4: "is_tripped k b \<Longrightarrow> c \<noteq> Reset k \<Longrightarrow> is_tripped k (breaker_step c b)"
    unfolding is_tripped_def by (rule breaker_step_keeps_trip)
  have p5: "\<not> is_tripped k (breaker_step (Reset k) b)"
    by (simp add: is_tripped_def reset_def)
  from p1 p2 p3 p4 p5 show ?thesis by blast
qed

theorem breaker_latch_witness:
  "is_tripped ''J1'' (breaker_run (replicate 5 (RecordFailure ''J1'')) breaker_init)
   \<and> get_failure_count ''J1''
       (record_success ''J1'' (breaker_run (replicate 5 (RecordFailure ''J1'')) breaker_init)) = 0
   \<and> is_tripped ''J1''
       (record_success ''J1'' (breaker_run (replicate 5 (RecordFailure ''J1'')) breaker_init))
   \<and> is_tripped ''J1''
       (breaker_step (Reset ''J2'') (breaker_run (replicate 5 (RecordFailure ''J1'')) breaker_init))
   \<and> \<not> is_tripped ''J1''
       (breaker_step (Reset ''J1'') (breaker_run (replicate 5 (RecordFailure ''J1'')) breaker_init))"
proof -
  have t: "is_tripped ''J1'' (breaker_run (replicate 5 (RecordFailure ''J1'')) breaker_init)"
    using breaker_latch [of "''J1''" "[]"] by simp
  have ne: "Reset ''J2'' \<noteq> Reset ''J1''" by simp
  show ?thesis
    using t ne
      breaker_latch [of "''J1''" "replicate 5 (RecordFailure ''J1'')" "Reset ''J2''"]
    by blast
qed

section \<open>Properties of the patch functions\<close>

lemma concat_splitlines_from: "concat (splitlines_from cur s) = cur @ s"
  by (induction cur s rule: splitlines_from.induct) (auto split: list.splits)

lemma concat_splitlines_keepends: "concat (splitlines_keepends s) = s"
  by (simp add: splitlines_keepends_def concat_splitlines_from)

lemma length_lstrip: "length (lstrip s) = length s - length (takeWhile isspace s)"
proof -
  have "length (takeWhile isspace s) + length (dropWhile isspace s) = length s"
    by (metis length_append takeWhile_dropWhile_id)
  then show ?thesis by (simp add: lstrip_def)
qed

lemma py_insert_negative:
  "PY_SSIZE_T_MIN \<le> i \<Longrightarrow> i < 0 \<Longrightarrow>
   py_insert xs i x =
     Inr (take (nat (int (length xs) + i)) xs @ [x] @ drop (nat (int (length xs) + i)) xs)"
  by (simp add: py_insert_def PY_SSIZE_T_MAX_def Let_def max_def add.commute)

lemma py_insert_overflow:
  "py_insert xs i x = Inl e \<longleftrightarrow> e = OverflowError \<and> (i < PY_SSIZE_T_MIN \<or> PY_SSIZE_T_MAX < i)"
  by (auto simp: py_insert_def Let_def)

lemma join_inserted_Inl: "join_inserted r = Inl e \<longleftrightarrow> r = Inl e"
  by (cases r) (simp_all add: join_inserted_def)

text \<open>
  What \<^verbatim>\<open>replace_line\<close> of the line-based strategy writes: as many spaces as the
  original line (line terminator included) has leading whitespace characters,
  then the payload without its own leading whitespace.
\<close>

lemma replace_line_result:
  assumes "0 < n" and "n \<le> int (length (splitlines_keepends content))"
  shows "apply_line_patch content n ''replace_line'' code =
           Inr (concat ((splitlines_keepends content)
                  [nat (n - 1) :=
                     replicate (length (takeWhile isspace (splitlines_keepends content ! nat (n - 1))))
                       (CHR '' '')
                     @ lstrip code @ [CHR 0x0A]]))"
proof -
  have "length l - length (lstrip l) = length (takeWhile isspace l)" for l
    using length_lstrip [of l]
    by (metis diff_diff_cancel length_takeWhile_le)
  with assms show ?thesis
    by (simp add: apply_line_patch_def Let_def)
qed

text \<open>
  When the original line is indented with spaces only, the written line starts with
  the original line's leading whitespace.
\<close>

lemma replace_line_space_indent:
  assumes "0 < n" and "n \<le> int (length (splitlines_keepends content))"
    and "set (takeWhile isspace (splitlines_keepends content ! nat (n - 1))) \<subseteq> {CHR '' ''}"
  shows "apply_line_patch content n ''replace_line'' code =
           Inr (concat ((splitlines_keepends content)
                  [nat (n - 1) :=
                     takeWhile isspace (splitlines_keepends content ! nat (n - 1))
                     @ lstrip code @ [CHR 0x0A]]))"
proof -
  have "replicate (length ws) (CHR '' '') = ws" if "set ws \<subseteq> {CHR '' ''}" for ws :: string
    using that by (induction ws) auto
  with assms(3) show ?thesis
    by (simp add: replace_line_result [OF assms(1,2)])
qed

text \<open>
  Claim C9 (indentation on \<^verbatim>\<open>replace_line\<close>, line-based strategy). The code writes
  one space per leading whitespace character of the original line, so a line
  indented with a tab comes back indented with a space: on the one-line file
  \<^verbatim>\<open>"\tfoo\n"\<close>, replacing line 1 by \<^verbatim>\<open>bar\<close> gives \<^verbatim>\<open>" bar\n"\<close>, whose leading
  whitespace differs from the original line's.
\<close>

theorem replace_line_tab_indent:
  "apply_line_patch (CHR 0x09 # ''foo'' @ [CHR 0x0A]) 1 ''replace_line'' ''bar''
     = Inr ('' bar'' @ [CHR 0x0A])
   \<and> takeWhile isspace (CHR 0x09 # ''foo'' @ [CHR 0x0A]) = [CHR 0x09]
   \<and> takeWhile (\<lambda>c. isspace c \<and> \<not> is_line_boundary c) ('' bar'' @ [CHR 0x0A]) = '' ''"
  by (simp add: apply_line_patch_def splitlines_keepends_def is_line_boundary_def
        isspace_def lstrip_def Let_def)

text \<open>
  Claim C10 (negative line number on \<^verbatim>\<open>insert_after_line\<close>). In both strategies
  the range check rejects only a line number greater than the number of lines, with
  the \<^verbatim>\<open>ValueError\<close>; a line number below \<open>- 2 ^ 63\<close> passes the check and makes
  \<^verbatim>\<open>list.insert\<close> raise \<^verbatim>\<open>OverflowError\<close>; no other line number fails. A negative
  line number from \<open>- 2 ^ 63\<close> on is accepted, and the payload line is inserted so
  that \<open>min (- line_number) (length lines)\<close> lines of the file follow it. (The files
  considered have fewer than \<open>2 ^ 63\<close> lines, as every Python list has.)
\<close>

theorem insert_after_negative_line:
  fixes content code :: string and line_number n :: int
  defines "lines \<equiv> splitlines_keepends content"
  defines "k \<equiv> nat (int (length lines) + line_number)"
  assumes fits: "int (length lines) \<le> PY_SSIZE_T_MAX"
  shows "(apply_line_patch content n ''insert_after_line'' code = Inl (LineOutOfRange n)
            \<longleftrightarrow> int (length lines) < n)
       \<and> (apply_dom_patch content n ''insert_after_line'' code = Inl (LineOutOfRange n)
            \<longleftrightarrow> int (length lines) < n)
       \<and> (apply_line_patch content n ''insert_after_line'' code = Inl OverflowError
            \<longleftrightarrow> n < PY_SSIZE_T_MIN)
       \<and> (apply_dom_patch content n ''insert_after_line'' code = Inl OverflowError
            \<longleftrightarrow> n < PY_SSIZE_T_MIN)
       \<and> ((\<exists>e. apply_line_patch content n ''insert_after_line'' code = Inl e)
            \<longleftrightarrow> int (length lines) < n \<or> n < PY_SSIZE_T_MIN)
       \<and> ((\<exists>e. apply_dom_patch content n ''insert_after_line'' code = Inl e)
            \<longleftrightarrow> int (length lines) < n \<or> n < PY_SSIZE_T_MIN)
       \<and> (PY_SSIZE_T_MIN \<le> line_number \<and> line_number < 0 \<longrightarrow>
            apply_line_patch content line_number ''insert_after_line'' code
              = Inr (concat (take k lines @ [code @ [CHR 0x0A]] @ drop k lines))
          \<and> apply_dom_patch content line_number ''insert_after_line'' code
              = Inr (concat (take k lines @ [code @ [CHR 0x0A]] @ drop k lines))
          \<and> length (drop k lines) = min (nat (- line_number)) (length lines))"
proof -
  have big: "\<not> PY_SSIZE_T_MAX < n" if "n \<le> int (length lines)"
    using fits that by simp
  have neg: "PY_SSIZE_T_MIN < 0"
    by (simp add: PY_SSIZE_T_MIN_def)
  have a1: "apply_line_patch content n ''insert_after_line'' code = Inl (LineOutOfRange n)
            \<longleftrightarrow> int (length lines) < n"
    using big
    by (auto simp: apply_line_patch_def lines_def Let_def join_inserted_Inl py_insert_overflow)
  have a2: "apply_dom_patch content n ''insert_after_line'' code = Inl (LineOutOfRange n)
            \<longleftrightarrow> int (length lines) < n"
    using big
    by (auto simp: apply_dom_patch_def lines_def Let_def join_inserted_Inl py_insert_overflow)
  have b1: "apply_line_patch content n ''insert_after_line'' code = Inl OverflowError
            \<longleftrightarrow> n < PY_SSIZE_T_MIN"
    using big neg
    by (auto simp: apply_line_patch_def lines_def Let_def join_inserted_Inl py_insert_overflow)
  have b2: "apply_dom_patch content n ''insert_after_line'' code = Inl OverflowError
            \<longleftrightarrow> n < PY_SSIZE_T_MIN"
    using big neg
    by (auto simp: apply_dom_patch_def lines_def Let_def join_inserted_Inl py_insert_overflow)
  have c1: "(\<exists>e. apply_line_patch content n ''insert_after_line'' code = Inl e)
            \<longleftrightarrow> int (length lines) < n \<or> n < PY_SSIZE_T_MIN"
    using big neg
    by (auto simp: apply_line_patch_def lines_def Let_def join_inserted_Inl py_insert_overflow)
  have c2: "(\<exists>e. apply_dom_patch content n ''insert_after_line'' code = Inl e)
            \<longleftrightarrow> int (length lines) < n \<or> n < PY_SSIZE_T_MIN"
    using big neg
    by (auto simp: apply_dom_patch_def lines_def Let_def join_inserted_Inl py_insert_overflow)
  have d1: "apply_line_patch content line_number ''insert_after_line'' code
              = Inr (concat (take k lines @ [code @ [CHR 0x0A]] @ drop k lines))"
    if "PY_SSIZE_T_MIN \<le> line_number" "line_number < 0"
    using that py_insert_negative [of line_number lines "code @ [CHR 0x0A]"]
    by (simp add: apply_line_patch_def lines_def k_def Let_def join_inserted_def)
  have d2: "apply_dom_patch content line_number ''insert_after_line'' code
              = Inr (concat (take k lines @ [code @ [CHR 0x0A]] @ drop k lines))"
    if "PY_SSIZE_T_MIN \<le> line_number" "line_number < 0"
    using that py_insert_negative [of line_number lines "code @ [CHR 0x0A]"]
    by (simp add: apply_dom_patch_def lines_def k_def Let_def join_inserted_def)
  have e: "length (drop k lines) = min (nat (- line_number)) (length lines)"
    if "line_number < 0"
    using that by (simp add: k_def min_def) linarith
  show ?thesis
    using a1 a2 b1 b2 c1 c2 d1 d2 e by simp
qed

theorem insert_after_negative_line_witness:
  "int (length (splitlines_keepends (''a'' @ [CHR 0x0A] @ ''b'' @ [CHR 0x0A] @ ''c'' @ [CHR 0x0A])))
     \<le> PY_SSIZE_T_MAX
   \<and> PY_SSIZE_T_MIN \<le> (-1 :: int) \<and> (-1 :: int) < 0
   \<and> apply_line_patch (''a'' @ [CHR 0x0A] @ ''b'' @ [CHR 0x0A] @ ''c'' @ [CHR 0x0A]) (-1)
        ''insert_after_line'' ''X''
       = Inr (''a'' @ [CHR 0x0A] @ ''b'' @ [CHR 0x0A] @ ''X'' @ [CHR 0x0A] @ ''c'' @ [CHR 0x0A])
   \<and> apply_dom_patch (''a'' @ [CHR 0x0A] @ ''b'' @ [CHR 0x0A] @ ''c'' @ [CHR 0x0A]) (-1)
        ''insert_after_line'' ''X''
       = Inr (''a'' @ [CHR 0x0A] @ ''b'' @ [CHR 0x0A] @ ''X'' @ [CHR 0x0A] @ ''c'' @ [CHR 0x0A])"
proof -
  have sl: "splitlines_keepends (''a'' @ [CHR 0x0A] @ ''b'' @ [CHR 0x0A] @ ''c'' @ [CHR 0x0A])
              = [''a'' @ [CHR 0x0A], ''b'' @ [CHR 0x0A], ''c'' @ [CHR 0x0A]]"
    by (simp add: splitlines_keepends_def is_line_boundary_def)
  have fits: "int (length (splitlines_keepends
                 (''a'' @ [CHR 0x0A] @ ''b'' @ [CHR 0x0A] @ ''c'' @ [CHR 0x0A]))) \<le> PY_SSIZE_T_MAX"
    unfolding sl by (simp add: PY_SSIZE_T_MAX_def)
  have rng: "PY_SSIZE_T_MIN \<le> (-1 :: int) \<and> (-1 :: int) < 0"
    by (simp add: PY_SSIZE_T_MIN_def)
  show ?thesis
    using fits rng
      insert_after_negative_line
        [OF fits, of 0 "''X''" "-1"]
    unfolding sl by simp
qed

text \<open>
  Below \<open>- 2 ^ 63\<close> the edit is not accepted: on the one-line file \<^verbatim>\<open>"a\n"\<close> the line
  number \<open>- 2 ^ 63 - 1\<close> passes the range check of both strategies, and the insertion
  raises \<^verbatim>\<open>OverflowError\<close>.
\<close>

theorem insert_after_line_overflow_counterexample:
  "(- 9223372036854775809 :: int) < 0
   \<and> apply_line_patch (''a'' @ [CHR 0x0A]) (- 9223372036854775809) ''insert_after_line'' ''X''
       = Inl OverflowError
   \<and> apply_dom_patch (''a'' @ [CHR 0x0A]) (- 9223372036854775809) ''insert_after_line'' ''X''
       = Inl OverflowError"
  by (simp add: apply_line_patch_def apply_dom_patch_def splitlines_keepends_def
        is_line_boundary_def py_insert_def join_inserted_def PY_SSIZE_T_MIN_def Let_def)

section \<open>Properties of the conflict resolver\<close>

subsection \<open>Grouping by file and line\<close>

lemma grouped_append_keys:
  "map fst (grouped_append k x gs) =
     (if k \<in> fst ` set gs then map fst gs else map fst gs @ [k])"
  by (induction gs) (auto split: if_splits)

lemma grouped_append_map_of:
  "map_of (grouped_append k x gs) =
     (map_of gs)(k \<mapsto> (case map_of gs k of None \<Rightarrow> [x] | Some g \<Rightarrow> g @ [x]))"
  by (induction gs) (auto simp: fun_eq_iff)

lemma group_issues_snoc:
  "group_issues (xs @ [x]) = grouped_append (issue_key x) x (group_issues xs)"
  by (simp add: group_issues_def)

lemma group_issues_inv:
  "distinct (map fst (group_issues xs)) \<and>
   fst ` set (group_issues xs) = issue_key ` set xs \<and>
   (\<forall>k \<in> issue_key ` set xs. map_of (group_issues xs) k = Some (line_group xs k))"
proof (induction xs rule: rev_induct)
  case Nil
  show ?case by (simp add: group_issues_def)
next
  case (snoc x xs)
  let ?gs = "group_issues xs"
  from snoc have d: "distinct (map fst ?gs)"
    and ks: "fst ` set ?gs = issue_key ` set xs"
    and mo: "\<And>k. k \<in> issue_key ` set xs \<Longrightarrow> map_of ?gs k = Some (line_group xs k)"
    by blast+
  have none: "map_of ?gs k = None" if "k \<notin> issue_key ` set xs" for k
    using that ks by (simp add: map_of_eq_None_iff)
  have d': "distinct (map fst (group_issues (xs @ [x])))"
    using d by (simp add: group_issues_snoc grouped_append_keys)
  have ks': "fst ` set (group_issues (xs @ [x])) = issue_key ` set (xs @ [x])"
  proof -
    have "set (map fst (group_issues (xs @ [x]))) = insert (issue_key x) (fst ` set ?gs)"
      by (simp add: group_issues_snoc grouped_append_keys insert_absorb)
    then show ?thesis using ks by auto
  qed
  have mo': "map_of (group_issues (xs @ [x])) k = Some (line_group (xs @ [x]) k)"
    if "k \<in> issue_key ` set (xs @ [x])" for k
  proof (cases "k = issue_key x")
    case True
    show ?thesis
    proof (cases "k \<in> issue_key ` set xs")
      case True
      with \<open>k = issue_key x\<close> mo [OF True] show ?thesis
        by (simp add: group_issues_snoc grouped_append_map_of line_group_def)
    next
      case False
      then have "line_group xs k = []"
        by (auto simp: line_group_def filter_empty_conv)
      with \<open>k = issue_key x\<close> none [OF False] show ?thesis
        by (simp add: group_issues_snoc grouped_append_map_of line_group_def)
    qed
  next
    case False
    with that have "k \<in> issue_key ` set xs" by auto
    with False mo show ?thesis
      by (simp add: group_issues_snoc grouped_append_map_of line_group_def)
  qed
  from d' ks' mo' show ?case by blast
qed

lemma group_issues_member:
  "(k, g) \<in> set (group_issues xs) \<longleftrightarrow> k \<in> issue_key ` set xs \<and> g = line_group xs k"
proof -
  have d: "distinct (map fst (group_issues xs))"
    using group_issues_inv by blast
  show ?thesis
  proof
    assume m: "(k, g) \<in> set (group_issues xs)"
    then have "k \<in> fst ` set (group_issues xs)" by force
    then have k: "k \<in> issue_key ` set xs" using group_issues_inv by blast
    from m d have "map_of (group_issues xs) k = Some g" by simp
    with k show "k \<in> issue_key ` set xs \<and> g = line_group xs k"
      using group_issues_inv by fastforce
  next
    assume "k \<in> issue_key ` set xs \<and> g = line_group xs k"
    then have "map_of (group_issues xs) k = Some g"
      using group_issues_inv by blast
    then show "(k, g) \<in> set (group_issues xs)" by (rule map_of_SomeD)
  qed
qed

subsection \<open>One group\<close>

lemma mark_conflict_key [simp]: "issue_key (mark_conflict ids x) = issue_key x"
  by (simp add: mark_conflict_def issue_key_def)

lemma mark_superseded_key [simp]: "issue_key (mark_superseded h x) = issue_key x"
  by (simp add: mark_superseded_def issue_key_def)

lemma sorted_by_severity_set: "set (sorted_by_severity g) = set g"
  by (simp add: sorted_by_severity_def)

lemma dedup_group_keys:
  assumes "\<forall>x \<in> set g. issue_key x = k" and "y \<in> set (dedup_group g)"
  shows "issue_key y = k"
proof (cases "length g = 1")
  case True
  then have "hd g \<in> set g" by (cases g) auto
  with True assms show ?thesis by (simp add: dedup_group_def)
next
  case False
  show ?thesis
  proof (cases "check_patch_conflict g")
    case True
    with False assms show ?thesis by (auto simp: dedup_group_def)
  next
    case nc: False
    show ?thesis
    proof (cases "sorted_by_severity g")
      case Nil
      with False nc assms show ?thesis by (simp add: dedup_group_def)
    next
      case (Cons h others)
      then have "set (h # others) = set g"
        using sorted_by_severity_set [of g] by simp
      with Cons False nc assms show ?thesis
        by (auto simp: dedup_group_def)
    qed
  qed
qed

lemma filter_concat_one_group:
  assumes "distinct (map fst gs)" and "(k, g) \<in> set gs"
    and "\<And>k' g' y. (k', g') \<in> set gs \<Longrightarrow> y \<in> set (F g') \<Longrightarrow> key y = k'"
  shows "filter (\<lambda>y. key y = k) (concat (map (\<lambda>(k', g'). F g') gs)) = F g"
  using assms
proof (induction gs)
  case Nil
  then show ?case by simp
next
  case (Cons p gs)
  obtain k0 g0 where p: "p = (k0, g0)" by (cases p)
  have keys0: "\<And>y. y \<in> set (F g0) \<Longrightarrow> key y = k0"
    using Cons.prems(3) [of k0 g0] p by simp
  have rest_keys: "\<And>k' g' y. (k', g') \<in> set gs \<Longrightarrow> y \<in> set (F g') \<Longrightarrow> key y = k'"
    by (rule Cons.prems(3) [OF list.set_intros(2)])
  show ?case
  proof (cases "k0 = k")
    case True
    with Cons.prems(1,2) p have g: "g0 = g"
      by (auto simp: image_iff) 
    have "filter (\<lambda>y. key y = k) (F g0) = F g0"
      using keys0 True by (simp add: filter_id_conv)
    moreover have "filter (\<lambda>y. key y = k) (concat (map (\<lambda>(k', g'). F g') gs)) = []"
    proof -
      have "key y \<noteq> k" if "y \<in> set (concat (map (\<lambda>(k', g'). F g') gs))" for y
      proof -
        from that obtain k' g' where m: "(k', g') \<in> set gs" and y: "y \<in> set (F g')"
          by auto
        from m Cons.prems(1) p True have "k' \<noteq> k" by (auto simp: image_iff)
        with rest_keys [OF m y] show ?thesis by simp
      qed
      then show ?thesis by (simp add: filter_empty_conv)
    qed
    ultimately show ?thesis using p g by simp
  next
    case False
    with Cons.prems(2) p have m: "(k, g) \<in> set gs" by auto
    have "filter (\<lambda>y. key y = k) (F g0) = []"
      using keys0 False by (auto simp: filter_empty_conv)
    moreover have "filter (\<lambda>y. key y = k) (concat (map (\<lambda>(k', g'). F g') gs)) = F g"
      using Cons.IH [OF _ m rest_keys] Cons.prems(1) by simp
    ultimately show ?thesis using p by simp
  qed
qed

text \<open>What the resolver returns for one file and line is what the loop body makes of that group.\<close>

lemma deduplicate_issues_line:
  assumes "k \<in> issue_key ` set edits"
  shows "filter (\<lambda>y. issue_key y = k) (deduplicate_issues edits)
           = dedup_group (line_group edits k)"
  unfolding deduplicate_issues_def
proof (rule filter_concat_one_group)
  show "distinct (map fst (group_issues edits))"
    using group_issues_inv by blast
  show "(k, line_group edits k) \<in> set (group_issues edits)"
    using assms by (simp add: group_issues_member)
next
  fix k' g' y
  assume "(k', g') \<in> set (group_issues edits)" and y: "y \<in> set (dedup_group g')"
  then have "g' = line_group edits k'" by (simp add: group_issues_member)
  then have "\<forall>x \<in> set g'. issue_key x = k'" by (simp add: line_group_def)
  then show "issue_key y = k'" using y by (rule dedup_group_keys)
qed

lemma check_patch_conflict_iff:
  "check_patch_conflict g \<longleftrightarrow>
     (\<exists>a \<in> set g. \<exists>b \<in> set g. iss_action a = ''replace_line'' \<and> iss_action b = ''replace_line''
        \<and> iss_code a \<noteq> iss_code b)"
proof -
  let ?r = "filter (\<lambda>x. iss_action x = ''replace_line'') g"
  let ?codes = "set (map iss_code ?r)"
  have "card ?codes > 1 \<longleftrightarrow> \<not> card ?codes \<le> Suc 0" by auto
  also have "\<dots> \<longleftrightarrow> \<not> (\<forall>c \<in> ?codes. \<forall>d \<in> ?codes. c = d)"
    by (subst card_le_Suc0_iff_eq) simp_all
  finally have c: "card ?codes > 1 \<longleftrightarrow> (\<exists>c \<in> ?codes. \<exists>d \<in> ?codes. c \<noteq> d)" by blast
  have "check_patch_conflict g \<longleftrightarrow> card ?codes > 1"
  proof
    assume "check_patch_conflict g"
    then show "card ?codes > 1" by (simp add: check_patch_conflict_def Let_def)
  next
    assume gt: "card ?codes > 1"
    have "?r \<noteq> []"
    proof
      assume e: "?r = []"
      have "card ?codes = 0" unfolding e by simp
      with gt show False by linarith
    qed
    then obtain x where "x \<in> set ?r" by (cases ?r) auto
    then have "''replace_line'' \<in> set (map iss_action ?r)" by force
    with gt show "check_patch_conflict g" by (simp add: check_patch_conflict_def Let_def)
  qed
  with c show ?thesis by auto
qed

lemma deduplicate_issues_keys:
  assumes "y \<in> set (deduplicate_issues edits)"
  shows "issue_key y \<in> issue_key ` set edits"
proof -
  from assms obtain k g where m: "(k, g) \<in> set (group_issues edits)"
    and y: "y \<in> set (dedup_group g)"
    by (auto simp: deduplicate_issues_def)
  from m have k: "k \<in> issue_key ` set edits" and g: "g = line_group edits k"
    by (simp_all add: group_issues_member)
  from g have "\<forall>x \<in> set g. issue_key x = k" by (simp add: line_group_def)
  then have "issue_key y = k" using y by (rule dedup_group_keys)
  with k show ?thesis by simp
qed

lemma line_group_nonempty: "line_group edits k \<noteq> [] \<longleftrightarrow> k \<in> issue_key ` set edits"
  by (auto simp: line_group_def filter_empty_conv)

text \<open>The head of a stable ascending sort is the earliest element with the least key.\<close>

lemma sort_key_head:
  assumes "sort_key f g = h # others"
  shows "\<exists>pre post. g = pre @ h # post \<and> (\<forall>e \<in> set pre. f h < f e)
           \<and> (\<forall>e \<in> set post. f h \<le> f e) \<and> mset others = mset (pre @ post)"
proof -
  have srt: "sorted (map f (h # others))"
    using sorted_sort_key [of f g] assms by simp
  have least: "f h \<le> f e" if "e \<in> set g" for e
  proof -
    from that have "e \<in> set (h # others)"
      using set_sort [of f g] assms by simp
    with srt show ?thesis by auto
  qed
  have "filter (\<lambda>y. f y = f h) (sort_key f g) = filter (\<lambda>y. f y = f h) g"
    by (rule sort_key_stable)
  then have "filter (\<lambda>y. f y = f h) g = h # filter (\<lambda>y. f y = f h) others"
    using assms by simp
  then obtain pre post where g: "g = pre @ h # post"
    and pre: "\<forall>u \<in> set pre. f u \<noteq> f h"
    by (auto simp: filter_eq_Cons_iff)
  have p1: "\<forall>e \<in> set pre. f h < f e"
  proof
    fix e assume e: "e \<in> set pre"
    then have "f h \<le> f e" using least g by simp
    with pre e show "f h < f e" by fastforce
  qed
  have p2: "\<forall>e \<in> set post. f h \<le> f e"
    using least g by simp
  have "mset (h # others) = mset g"
    using mset_sort [of f g] assms by simp
  then have "mset others = mset (pre @ post)"
    using g by simp
  with g p1 p2 show ?thesis by blast
qed

lemma dedup_group_conflict:
  assumes "check_patch_conflict g"
  shows "dedup_group g = map (mark_conflict (map iss_id g)) g"
proof -
  from assms obtain a b where "a \<in> set g" "b \<in> set g" "iss_code a \<noteq> iss_code b"
    unfolding check_patch_conflict_iff by blast
  then have "length g \<noteq> 1"
    by (cases g) auto
  with assms show ?thesis by (simp add: dedup_group_def)
qed

lemma dedup_group_supersede:
  assumes "2 \<le> length g" and "\<not> check_patch_conflict g"
  shows "\<exists>kept pre post rest.
           g = pre @ kept # post
         \<and> (\<forall>e \<in> set pre. severity_rank e < severity_rank kept)
         \<and> (\<forall>e \<in> set post. severity_rank e \<le> severity_rank kept)
         \<and> mset rest = mset (pre @ post)
         \<and> dedup_group g = kept # map (mark_superseded kept) rest"
proof -
  have "length (sorted_by_severity g) = length g"
    by (simp add: sorted_by_severity_def)
  with assms(1) have ne: "sorted_by_severity g \<noteq> []"
    by auto
  then obtain h others where s: "sorted_by_severity g = h # others"
    by (cases "sorted_by_severity g") auto
  then have "sort_key (\<lambda>x. - severity_rank x) g = h # others"
    by (simp add: sorted_by_severity_def)
  from sort_key_head [OF this]
  obtain pre post where "g = pre @ h # post"
    and "\<forall>e \<in> set pre. severity_rank e < severity_rank h"
    and "\<forall>e \<in> set post. severity_rank e \<le> severity_rank h"
    and "mset others = mset (pre @ post)"
    by auto
  moreover have "dedup_group g = h # map (mark_superseded h) others"
    using assms s by (simp add: dedup_group_def)
  ultimately show ?thesis by blast
qed

lemma dedup_group_no_conflict:
  assumes "\<not> check_patch_conflict g" and "y \<in> set (dedup_group g)"
  shows "\<exists>e \<in> set g. y = e \<or> (\<exists>h \<in> set g. y = mark_superseded h e)"
proof (cases "length g = 1")
  case True
  then have "hd g \<in> set g" by (cases g) auto
  with True assms show ?thesis by (auto simp: dedup_group_def)
next
  case False
  show ?thesis
  proof (cases "sorted_by_severity g")
    case Nil
    with False assms show ?thesis by (simp add: dedup_group_def)
  next
    case (Cons h others)
    then have sub: "set (h # others) = set g"
      using sorted_by_severity_set [of g] by simp
    from Cons False assms have "y = h \<or> y \<in> mark_superseded h ` set others"
      by (auto simp: dedup_group_def)
    with sub show ?thesis by auto
  qed
qed

lemma severity_rank_values:
  "iss_severity x = ''critical'' \<Longrightarrow> severity_rank x = 4"
  "iss_severity x = ''high'' \<Longrightarrow> severity_rank x = 3"
  "iss_severity x = ''medium'' \<Longrightarrow> severity_rank x = 2"
  "iss_severity x = ''low'' \<Longrightarrow> severity_rank x = 1"
  by (simp_all add: severity_rank_def SEVERITY_ORDER_def)


lemma other_ids_set:
  assumes "distinct (map iss_id grp)" and "e \<in> set grp"
  shows "set (filter (\<lambda>i. i \<noteq> iss_id e) (map iss_id grp)) = iss_id ` (set grp - {e})"
proof -
  from assms(1) have inj: "inj_on iss_id (set grp)" by (simp add: distinct_map)
  have "set (filter (\<lambda>i. i \<noteq> iss_id e) (map iss_id grp)) = {i \<in> iss_id ` set grp. i \<noteq> iss_id e}"
    by auto
  also have "\<dots> = iss_id ` (set grp - {e})"
  proof (rule set_eqI, rule iffI)
    fix i assume "i \<in> {i \<in> iss_id ` set grp. i \<noteq> iss_id e}"
    then obtain x where "x \<in> set grp" "i = iss_id x" "iss_id x \<noteq> iss_id e" by auto
    then have "x \<in> set grp - {e}" by auto
    with \<open>i = iss_id x\<close> show "i \<in> iss_id ` (set grp - {e})" by blast
  next
    fix i assume "i \<in> iss_id ` (set grp - {e})"
    then obtain x where x: "x \<in> set grp" "x \<noteq> e" "i = iss_id x" by auto
    with inj assms(2) have "iss_id x \<noteq> iss_id e" by (auto simp: inj_on_def)
    with x show "i \<in> {i \<in> iss_id ` set grp. i \<noteq> iss_id e}" by simp
  qed
  finally show ?thesis .
qed

text \<open>
  Claim C5 (resolver conflict rule). Take any input list and any file and line \<open>k\<close>;
  \<open>line_group edits k\<close> are the edits of the input on that line, in input order, and
  the edits of the result on that line are those the result lists for \<open>k\<close>. If two
  \<^verbatim>\<open>replace_line\<close> edits of the group differ in their payload, the result holds for
  every edit of the group that edit with status \<^verbatim>\<open>conflict\<close> and with
  \<^verbatim>\<open>conflict_with\<close> the ids of the group other than its own (with distinct ids:
  exactly the ids of all other edits of the group). If no two \<^verbatim>\<open>replace_line\<close>
  edits of the group differ in payload (in particular when the group has only
  \<^verbatim>\<open>insert_after_line\<close> and \<^verbatim>\<open>annotate\<close> edits), every edit of the result on that line
  is an input edit unchanged or an input edit marked \<^verbatim>\<open>superseded\<close>: none is marked
  \<^verbatim>\<open>conflict\<close>.
\<close>

theorem resolver_conflict_rule:
  fixes edits :: "issue list" and k :: "string \<times> int"
  defines "grp \<equiv> line_group edits k"
  defines "out \<equiv> filter (\<lambda>y. issue_key y = k) (deduplicate_issues edits)"
  defines "differing \<equiv>
    (\<exists>a \<in> set grp. \<exists>b \<in> set grp. iss_action a = ''replace_line''
        \<and> iss_action b = ''replace_line'' \<and> iss_code a \<noteq> iss_code b)"
  shows "(differing \<longrightarrow>
            out = map (\<lambda>e. e\<lparr>iss_status := ''conflict'',
                              iss_conflict_with :=
                                Some (filter (\<lambda>i. i \<noteq> iss_id e) (map iss_id grp))\<rparr>) grp)
       \<and> (distinct (map iss_id grp) \<longrightarrow>
            (\<forall>e \<in> set grp. set (filter (\<lambda>i. i \<noteq> iss_id e) (map iss_id grp))
                              = iss_id ` (set grp - {e})))
       \<and> (\<not> differing \<longrightarrow>
            (\<forall>y \<in> set out. \<exists>e \<in> set grp.
               y = e \<or> (\<exists>h \<in> set grp. y = e\<lparr>iss_status := ''superseded'',
                                                iss_superseded_by := Some (iss_id h)\<rparr>)))"
proof -
  have cpc: "check_patch_conflict grp \<longleftrightarrow> differing"
    unfolding differing_def by (rule check_patch_conflict_iff)
  have p1: "out = map (\<lambda>e. e\<lparr>iss_status := ''conflict'',
                              iss_conflict_with :=
                                Some (filter (\<lambda>i. i \<noteq> iss_id e) (map iss_id grp))\<rparr>) grp"
    if d: differing
  proof -
    from d have "grp \<noteq> []" unfolding differing_def by auto
    then have "k \<in> issue_key ` set edits"
      unfolding grp_def by (simp add: line_group_nonempty)
    then have "out = dedup_group grp"
      unfolding out_def grp_def by (rule deduplicate_issues_line)
    also have "\<dots> = map (mark_conflict (map iss_id grp)) grp"
      using d cpc by (simp add: dedup_group_conflict)
    finally show ?thesis by (simp add: mark_conflict_def [abs_def])
  qed
  have p2: "set (filter (\<lambda>i. i \<noteq> iss_id e) (map iss_id grp)) = iss_id ` (set grp - {e})"
    if "distinct (map iss_id grp)" and "e \<in> set grp" for e
    using that by (rule other_ids_set)
  have p3: "\<exists>e \<in> set grp. y = e \<or> (\<exists>h \<in> set grp. y = e\<lparr>iss_status := ''superseded'',
                                                iss_superseded_by := Some (iss_id h)\<rparr>)"
    if nd: "\<not> differing" and y: "y \<in> set out" for y
  proof -
    from y have "y \<in> set (deduplicate_issues edits)" and ky: "issue_key y = k"
      by (simp_all add: out_def)
    then have kin: "k \<in> issue_key ` set edits"
      using deduplicate_issues_keys by blast
    then have "out = dedup_group grp"
      unfolding out_def grp_def by (rule deduplicate_issues_line)
    with y have "y \<in> set (dedup_group grp)" by simp
    with nd cpc have "\<exists>e \<in> set grp. y = e \<or> (\<exists>h \<in> set grp. y = mark_superseded h e)"
      by (simp add: dedup_group_no_conflict)
    then show ?thesis by (simp add: mark_superseded_def)
  qed
  show ?thesis
  proof (intro conjI impI ballI)
    assume differing
    then show "out = map (\<lambda>e. e\<lparr>iss_status := ''conflict'',
                              iss_conflict_with :=
                                Some (filter (\<lambda>i. i \<noteq> iss_id e) (map iss_id grp))\<rparr>) grp"
      by (rule p1)
  next
    fix e assume "distinct (map iss_id grp)" and "e \<in> set grp"
    then show "set (filter (\<lambda>i. i \<noteq> iss_id e) (map iss_id grp)) = iss_id ` (set grp - {e})"
      by (rule p2)
  next
    fix y assume "\<not> differing" and "y \<in> set out"
    then show "\<exists>e \<in> set grp. y = e \<or> (\<exists>h \<in> set grp. y = e\<lparr>iss_status := ''superseded'',
                                                iss_superseded_by := Some (iss_id h)\<rparr>)"
      by (rule p3)
  qed
qed

text \<open>
  Claim C6 (resolver supersede rule). A group of two or more edits on one file and
  line in which no two \<^verbatim>\<open>replace_line\<close> edits differ in payload: the result lists
  for that line one edit \<open>kept\<close> of the group unchanged, and every other edit of the
  group with status \<^verbatim>\<open>superseded\<close> and \<^verbatim>\<open>superseded_by\<close> the id of \<open>kept\<close>. No edit
  of the group ranks above \<open>kept\<close>, and every edit before \<open>kept\<close> in the input ranks
  strictly below it: \<open>kept\<close> is the earliest edit of the highest severity. The ranks
  are critical 4, high 3, medium 2, low 1.
\<close>

theorem resolver_supersede_rule:
  fixes edits :: "issue list" and k :: "string \<times> int"
  defines "grp \<equiv> line_group edits k"
  defines "out \<equiv> filter (\<lambda>y. issue_key y = k) (deduplicate_issues edits)"
  assumes two: "2 \<le> length grp"
    and same: "\<not> (\<exists>a \<in> set grp. \<exists>b \<in> set grp. iss_action a = ''replace_line''
                  \<and> iss_action b = ''replace_line'' \<and> iss_code a \<noteq> iss_code b)"
  shows "(\<exists>kept pre post rest.
            grp = pre @ kept # post
          \<and> (\<forall>e \<in> set pre. severity_rank e < severity_rank kept)
          \<and> (\<forall>e \<in> set post. severity_rank e \<le> severity_rank kept)
          \<and> mset rest = mset (pre @ post)
          \<and> out = kept # map (\<lambda>e. e\<lparr>iss_status := ''superseded'',
                                      iss_superseded_by := Some (iss_id kept)\<rparr>) rest)
       \<and> (\<forall>x. (iss_severity x = ''critical'' \<longrightarrow> severity_rank x = 4)
             \<and> (iss_severity x = ''high'' \<longrightarrow> severity_rank x = 3)
             \<and> (iss_severity x = ''medium'' \<longrightarrow> severity_rank x = 2)
             \<and> (iss_severity x = ''low'' \<longrightarrow> severity_rank x = 1))"
proof -
  from two have "grp \<noteq> []" by auto
  then have "k \<in> issue_key ` set edits"
    unfolding grp_def by (simp add: line_group_nonempty)
  then have o: "out = dedup_group grp"
    unfolding out_def grp_def by (rule deduplicate_issues_line)
  from same have "\<not> check_patch_conflict grp"
    unfolding check_patch_conflict_iff .
  from dedup_group_supersede [OF two this]
  have "\<exists>kept pre post rest.
            grp = pre @ kept # post
          \<and> (\<forall>e \<in> set pre. severity_rank e < severity_rank kept)
          \<and> (\<forall>e \<in> set post. severity_rank e \<le> severity_rank kept)
          \<and> mset rest = mset (pre @ post)
          \<and> out = kept # map (\<lambda>e. e\<lparr>iss_status := ''superseded'',
                                      iss_superseded_by := Some (iss_id kept)\<rparr>) rest"
    unfolding o mark_superseded_def [abs_def] .
  moreover have "\<forall>x. (iss_severity x = ''critical'' \<longrightarrow> severity_rank x = 4)
             \<and> (iss_severity x = ''high'' \<longrightarrow> severity_rank x = 3)
             \<and> (iss_severity x = ''medium'' \<longrightarrow> severity_rank x = 2)
             \<and> (iss_severity x = ''low'' \<longrightarrow> severity_rank x = 1)"
    by (simp add: severity_rank_values)
  ultimately show ?thesis by (rule conjI)
qed

theorem resolver_conflict_rule_witness:
  "filter (\<lambda>y. issue_key y = (''fileA'', 10))
     (deduplicate_issues [pending_edit 1 ''fileA'' 10 ''replace_line'' ''x'' ''low'',
                          pending_edit 2 ''fileA'' 10 ''replace_line'' ''y'' ''high''])
   = [(pending_edit 1 ''fileA'' 10 ''replace_line'' ''x'' ''low'')
        \<lparr>iss_status := ''conflict'', iss_conflict_with := Some [2]\<rparr>,
      (pending_edit 2 ''fileA'' 10 ''replace_line'' ''y'' ''high'')
        \<lparr>iss_status := ''conflict'', iss_conflict_with := Some [1]\<rparr>]
   \<and> filter (\<lambda>y. issue_key y = (''fileA'', 11))
     (deduplicate_issues [pending_edit 3 ''fileA'' 11 ''insert_after_line'' ''x'' ''low'',
                          pending_edit 4 ''fileA'' 11 ''annotate'' ''y'' ''low''])
   = [pending_edit 3 ''fileA'' 11 ''insert_after_line'' ''x'' ''low'',
      (pending_edit 4 ''fileA'' 11 ''annotate'' ''y'' ''low'')
        \<lparr>iss_status := ''superseded'', iss_superseded_by := Some 3\<rparr>]"
proof -
  let ?e1 = "pending_edit 1 ''fileA'' 10 ''replace_line'' ''x'' ''low''"
  let ?e2 = "pending_edit 2 ''fileA'' 10 ''replace_line'' ''y'' ''high''"
  let ?e3 = "pending_edit 3 ''fileA'' 11 ''insert_after_line'' ''x'' ''low''"
  let ?e4 = "pending_edit 4 ''fileA'' 11 ''annotate'' ''y'' ''low''"
  have g: "line_group [?e1, ?e2] (''fileA'', 10) = [?e1, ?e2]"
    by (simp add: line_group_def issue_key_def pending_edit_def)
  have d: "\<exists>a \<in> set (line_group [?e1, ?e2] (''fileA'', 10)).
           \<exists>b \<in> set (line_group [?e1, ?e2] (''fileA'', 10)).
             iss_action a = ''replace_line'' \<and> iss_action b = ''replace_line''
             \<and> iss_code a \<noteq> iss_code b"
    unfolding g by (simp add: pending_edit_def)
  have c1: "filter (\<lambda>y. issue_key y = (''fileA'', 10)) (deduplicate_issues [?e1, ?e2])
              = [?e1\<lparr>iss_status := ''conflict'', iss_conflict_with := Some [2]\<rparr>,
                 ?e2\<lparr>iss_status := ''conflict'', iss_conflict_with := Some [1]\<rparr>]"
    using resolver_conflict_rule [of "[?e1, ?e2]" "(''fileA'', 10)"] d
    unfolding g by (simp add: pending_edit_def)
  have g2: "line_group [?e3, ?e4] (''fileA'', 11) = [?e3, ?e4]"
    by (simp add: line_group_def issue_key_def pending_edit_def)
  have c2: "filter (\<lambda>y. issue_key y = (''fileA'', 11)) (deduplicate_issues [?e3, ?e4])
              = [?e3, ?e4\<lparr>iss_status := ''superseded'', iss_superseded_by := Some 3\<rparr>]"
    by (simp add: deduplicate_issues_def group_issues_def dedup_group_def
          check_patch_conflict_def sorted_by_severity_def severity_rank_def SEVERITY_ORDER_def
          mark_superseded_def issue_key_def pending_edit_def)
  from c1 c2 show ?thesis by (rule conjI)
qed

theorem resolver_supersede_rule_witness:
  "2 \<le> length (line_group [pending_edit 5 ''fileA'' 12 ''annotate'' ''n'' ''low'',
                             pending_edit 6 ''fileA'' 12 ''annotate'' ''m'' ''critical'']
                   (''fileA'', 12))
   \<and> filter (\<lambda>y. issue_key y = (''fileA'', 12))
       (deduplicate_issues [pending_edit 5 ''fileA'' 12 ''annotate'' ''n'' ''low'',
                            pending_edit 6 ''fileA'' 12 ''annotate'' ''m'' ''critical''])
     = [pending_edit 6 ''fileA'' 12 ''annotate'' ''m'' ''critical'',
        (pending_edit 5 ''fileA'' 12 ''annotate'' ''n'' ''low'')
          \<lparr>iss_status := ''superseded'', iss_superseded_by := Some 6\<rparr>]"
proof -
  let ?e5 = "pending_edit 5 ''fileA'' 12 ''annotate'' ''n'' ''low''"
  let ?e6 = "pending_edit 6 ''fileA'' 12 ''annotate'' ''m'' ''critical''"
  let ?out = "filter (\<lambda>y. issue_key y = (''fileA'', 12)) (deduplicate_issues [?e5, ?e6])"
  have g: "line_group [?e5, ?e6] (''fileA'', 12) = [?e5, ?e6]"
    by (simp add: line_group_def issue_key_def pending_edit_def)
  have two: "2 \<le> length (line_group [?e5, ?e6] (''fileA'', 12))"
    unfolding g by simp
  have same: "\<not> (\<exists>a \<in> set (line_group [?e5, ?e6] (''fileA'', 12)).
                 \<exists>b \<in> set (line_group [?e5, ?e6] (''fileA'', 12)).
                   iss_action a = ''replace_line'' \<and> iss_action b = ''replace_line''
                   \<and> iss_code a \<noteq> iss_code b)"
    unfolding g by (simp add: pending_edit_def)
  from resolver_supersede_rule [OF two same]
  obtain kept pre post rest where grp: "[?e5, ?e6] = pre @ kept # post"
    and pre: "\<forall>e \<in> set pre. severity_rank e < severity_rank kept"
    and post: "\<forall>e \<in> set post. severity_rank e \<le> severity_rank kept"
    and rest: "mset rest = mset (pre @ post)"
    and out: "?out = kept # map (\<lambda>e. e\<lparr>iss_status := ''superseded'',
                                      iss_superseded_by := Some (iss_id kept)\<rparr>) rest"
    unfolding g by blast
  have r5: "severity_rank ?e5 = 1" and r6: "severity_rank ?e6 = 4"
    by (simp_all add: severity_rank_def SEVERITY_ORDER_def pending_edit_def)
  have "kept = ?e6 \<and> pre = [?e5] \<and> post = []"
  proof (cases pre)
    case Nil
    with grp have "kept = ?e5" and "post = [?e6]" by simp_all
    with post r5 r6 show ?thesis by simp
  next
    case (Cons a pre')
    with grp have a: "a = ?e5" and "[?e6] = pre' @ kept # post" by simp_all
    then have "pre' = [] \<and> kept = ?e6 \<and> post = []"
      by (cases pre') simp_all
    with Cons a show ?thesis by simp
  qed
  with rest have "kept = ?e6" and "rest = [?e5]"
    by simp_all
  with out have "?out = [?e6, ?e5\<lparr>iss_status := ''superseded'', iss_superseded_by := Some 6\<rparr>]"
    by (simp add: pending_edit_def)
  with two show ?thesis by (rule conjI)
qed

section \<open>Properties of the segmenter\<close>

subsection \<open>The segments without semantic expansion\<close>

lemma segment_count_last:
  "N \<le> 160 * int (segment_count N - 1) + 180"
proof -
  have "N - 21 = 160 * ((N - 21) div 160) + (N - 21) mod 160" by simp
  moreover have "(N - 21) mod 160 < 160" by simp
  ultimately have "N - 21 < 160 * ((N - 21) div 160) + 160" by linarith
  then show ?thesis by (simp add: segment_count_def max_def) 
qed

lemma segment_count_inner:
  assumes "Suc j < segment_count N"
  shows "160 * int j + 181 \<le> N"
proof -
  have "N - 21 = 160 * ((N - 21) div 160) + (N - 21) mod 160" by simp
  moreover have "0 \<le> (N - 21) mod 160" by simp
  ultimately have "160 * ((N - 21) div 160) \<le> N - 21" by linarith
  moreover from assms have "int j + 1 \<le> (N - 21) div 160"
    by (auto simp: segment_count_def max_def split: if_splits)
  ultimately show ?thesis by linarith
qed

lemma segment_count_start:
  assumes "1 \<le> N" and "j < segment_count N"
  shows "160 * int j < N"
proof (cases j)
  case 0
  with assms show ?thesis by simp
next
  case (Suc i)
  with assms have "Suc i < segment_count N" by simp
  from segment_count_inner [OF this] Suc show ?thesis by simp
qed

lemma chunk_loop_no_expansion:
  assumes N: "N = int (length lines)" and pos: "1 \<le> N"
    and ne: "\<forall>k. expand_for_semantic_blocks lines (160 * int k) (tentative_end N k) N
                  = Inr (tentative_end N k)"
    and j: "j < segment_count N"
  shows "chunk_loop the_chunker file_path lines (160 * int j) acc =
           Some (Inr (acc @ map (\<lambda>k. make_chunk the_chunker file_path lines (160 * int k)
                                        (tentative_end N k))
                             [j ..< segment_count N]))"
  using j
proof (induction "segment_count N - j" arbitrary: j acc)
  case 0
  then show ?case by simp
next
  case (Suc d)
  let ?n = "segment_count N"
  let ?mk = "\<lambda>k. make_chunk the_chunker file_path lines (160 * int k) (tentative_end N k)"
  have start: "160 * int j < N"
    using pos Suc.prems by (rule segment_count_start)
  have ex: "expand_for_semantic_blocks lines (160 * int j)
              (min (160 * int j + chunk_size the_chunker) (int (length lines)))
              (int (length lines)) = Inr (tentative_end N j)"
    using ne N by (simp add: the_chunker_def tentative_end_def)
  have upt: "[j ..< ?n] = j # [Suc j ..< ?n]"
    using Suc.prems by (simp add: upt_conv_Cons)
  show ?case
  proof (cases "Suc j < ?n")
    case True
    from segment_count_inner [OF True] have lt: "160 * int j + 180 < N" by simp
    then have te: "tentative_end N j = 160 * int j + 180"
      by (simp add: tentative_end_def)
    have d: "d = ?n - Suc j" using Suc.hyps(2) by simp
    have "chunk_loop the_chunker file_path lines (160 * int j) acc
            = chunk_loop the_chunker file_path lines (160 * int (Suc j)) (acc @ [?mk j])"
      apply (subst chunk_loop.simps)
      using start lt N ex te
      apply (simp add: Let_def)
      apply (simp add: the_chunker_def)
      done
    also have "\<dots> = Some (Inr ((acc @ [?mk j]) @ map ?mk [Suc j ..< ?n]))"
      using Suc.hyps(1) [OF d True] .
    finally show ?thesis using upt by simp
  next
    case False
    with Suc.prems have last: "j = ?n - 1" by simp
    from segment_count_last [of N] last have "N \<le> 160 * int j + 180" by simp
    then have te: "tentative_end N j = N"
      by (simp add: tentative_end_def)
    have "[j ..< ?n] = [j]" using last Suc.prems by (simp add: upt_conv_Cons)
    moreover have "chunk_loop the_chunker file_path lines (160 * int j) acc
            = Some (Inr (acc @ [?mk j]))"
      apply (subst chunk_loop.simps)
      using start N ex te
      apply (simp add: Let_def)
      done
    ultimately show ?thesis by simp
  qed
qed

lemma make_chunk_span [simp]:
  "start_line (make_chunk self file_path lines s e) = s + 1"
  "end_line (make_chunk self file_path lines s e) = e"
  by (simp_all add: make_chunk_def Let_def)

lemma segment_covering:
  assumes "1 \<le> l" and "l \<le> N"
  shows "\<exists>k < segment_count N. 160 * int k + 1 \<le> l \<and> l \<le> tentative_end N k"
proof -
  define q where "q = nat ((l - 1) div 160)"
  have "l - 1 = 160 * ((l - 1) div 160) + (l - 1) mod 160" by simp
  moreover have "0 \<le> (l - 1) mod 160" and "(l - 1) mod 160 < 160" by simp_all
  moreover have "0 \<le> (l - 1) div 160" using assms(1) by (simp add: pos_imp_zdiv_nonneg_iff)
  ultimately have q: "160 * int q \<le> l - 1" "l - 1 < 160 * int q + 160"
    unfolding q_def by simp_all
  show ?thesis
  proof (cases "q < segment_count N")
    case True
    with q assms show ?thesis
      by (intro exI [of _ q]) (simp add: tentative_end_def)
  next
    case False
    let ?k = "segment_count N - 1"
    have k: "?k < segment_count N" by (simp add: segment_count_def)
    have "1 \<le> segment_count N" by (simp add: segment_count_def)
    with False have "int ?k + 1 \<le> int q" by linarith
    with q have "160 * int ?k + 1 \<le> l" by linarith
    moreover have "l \<le> tentative_end N ?k"
      using segment_count_last [of N] assms(2) by (simp add: tentative_end_def)
    ultimately show ?thesis using k by blast
  qed
qed

lemma finditer_from_no_first:
  assumes "\<forall>c \<in> set s. to_lower c \<noteq> to_lower p"
  shows "finditer_from (Lit p # as) skip off s = []"
  using assms by (induction s arbitrary: skip off) simp_all

lemma to_lower_lt [simp]: "to_lower c = CHR ''<'' \<longleftrightarrow> c = CHR ''<''"
proof
  assume a: "to_lower c = CHR ''<''"
  show "c = CHR ''<''"
  proof (cases "65 \<le> (of_char c :: nat) \<and> (of_char c :: nat) \<le> 90")
    case True
    then have "to_lower c = char_of ((of_char c :: nat) + 32)" by (simp add: to_lower_def)
    with a have "(of_char (char_of ((of_char c :: nat) + 32) :: char) :: nat) = of_char (CHR ''<'')"
      by simp
    moreover from True have "(of_char c :: nat) + 32 < 256" by simp
    ultimately have "(of_char c :: nat) + 32 = 60" by (simp add: of_char_of)
    with True show ?thesis by simp
  next
    case False
    with a show ?thesis by (simp add: to_lower_def)
  qed
next
  assume "c = CHR ''<''"
  then show "to_lower c = CHR ''<''" by (simp add: to_lower_def)
qed

lemma open_matches_no_markup:
  assumes "CHR ''<'' \<notin> set s"
  shows "open_matches s = []"
proof -
  have tl: "to_lower (CHR ''<'') = CHR ''<''" by simp
  have "finditer (Lit (CHR ''<'') # as) s = []" for as
    unfolding finditer_def
  proof (rule finditer_from_no_first, rule ballI)
    fix c assume "c \<in> set s"
    with assms have "c \<noteq> CHR ''<''" by auto
    then have "to_lower c \<noteq> CHR ''<''" by simp
    then show "to_lower c \<noteq> to_lower (CHR ''<'')" unfolding tl .
  qed
  then show ?thesis
    by (simp add: open_matches_def BLOCK_PATTERNS_def lits_def)
qed

lemma set_join_nl: "set (join_nl xs) \<subseteq> insert (CHR 0x0A) (\<Union> (set ` set xs))"
  by (induction xs rule: join_nl.induct) auto

lemma set_py_slice: "set (py_slice xs a b) \<subseteq> set xs"
  by (auto simp: py_slice_def Let_def dest: in_set_takeD in_set_dropD)

text \<open>A file without the character \<^verbatim>\<open><\<close> has no opening marker: nothing is expanded.\<close>

lemma no_markup_no_expansion:
  assumes "\<forall>l \<in> set lines. CHR ''<'' \<notin> set l"
  shows "expand_for_semantic_blocks lines s e total_lines = Inr e"
proof -
  have "CHR ''<'' \<notin> set (join_nl (py_slice lines s e))"
  proof
    assume "CHR ''<'' \<in> set (join_nl (py_slice lines s e))"
    then have "CHR ''<'' \<in> insert (CHR 0x0A) (\<Union> (set ` set (py_slice lines s e)))"
      using set_join_nl by blast
    then obtain l where "l \<in> set (py_slice lines s e)" and "CHR ''<'' \<in> set l" by auto
    with set_py_slice [of lines s e] assms show False by blast
  qed
  then show ?thesis
    by (simp add: expand_for_semantic_blocks_def Let_def open_matches_no_markup)
qed

lemma splitlines_from_line:
  assumes "\<forall>c \<in> set l. \<not> is_line_boundary c"
  shows "splitlines_from cur (l @ CHR 0x0A # rest) = (cur @ l @ [CHR 0x0A]) # splitlines_from [] rest"
  using assms
proof (induction l arbitrary: cur)
  case Nil
  show ?case by (simp add: is_line_boundary_def)
next
  case (Cons c l)
  then have nb: "\<not> is_line_boundary c" by simp
  then have "c \<noteq> CHR 0x0D" by (auto simp: is_line_boundary_def)
  with nb Cons show ?case by simp
qed

lemma splitlines_keepends_lines_text:
  assumes "\<forall>l \<in> set ls. \<forall>c \<in> set l. \<not> is_line_boundary c"
  shows "splitlines_keepends (lines_text ls) = map (\<lambda>l. l @ [CHR 0x0A]) ls"
  using assms
  by (induction ls) (simp_all add: splitlines_keepends_def lines_text_def splitlines_from_line)

lemma splitlines_lines_text:
  assumes "\<forall>l \<in> set ls. \<forall>c \<in> set l. \<not> is_line_boundary c"
  shows "splitlines (lines_text ls) = ls"
proof -
  have "takeWhile (\<lambda>c. \<not> is_line_boundary c) (l @ [CHR 0x0A]) = l" if "l \<in> set ls" for l
    using that assms by (simp add: takeWhile_append2 is_line_boundary_def)
  then have "map (takeWhile (\<lambda>c. \<not> is_line_boundary c)) (map (\<lambda>l. l @ [CHR 0x0A]) ls) = ls"
    by (simp add: map_idI)
  then show ?thesis
    by (simp add: splitlines_def splitlines_keepends_lines_text [OF assms])
qed

text \<open>
  Claim C7 (segmenter coverage and overlap). A non-empty file of \<open>N\<close> lines, chunked
  by the module's chunker (chunk size 180, overlap 20), for which the expansion
  returns every tentative end unchanged. Then \<^verbatim>\<open>chunk_file\<close> returns segments such
  that: every line from 1 to \<open>N\<close> lies in a segment; every segment is a non-empty
  range within the file; for consecutive segments the later one starts 19 lines
  before the end of the earlier one and ends after it, so they share exactly the
  last 20 lines of the earlier one; a file of 200 lines gives the two segments
  1 to 180 and 161 to 200.
\<close>

theorem segmenter_coverage_overlap:
  fixes content file_path :: string
  defines "lines \<equiv> splitlines content"
  defines "N \<equiv> int (length lines)"
  assumes nonempty: "1 \<le> N"
    and no_expansion:
      "\<forall>k. expand_for_semantic_blocks lines (160 * int k) (min (160 * int k + 180) N) N
             = Inr (min (160 * int k + 180) N)"
  shows "\<exists>chunks.
           chunk_file the_chunker file_path content = Some (Inr chunks)
         \<and> chunks \<noteq> []
         \<and> (\<forall>l. 1 \<le> l \<and> l \<le> N \<longrightarrow> (\<exists>c \<in> set chunks. start_line c \<le> l \<and> l \<le> end_line c))
         \<and> (\<forall>c \<in> set chunks. 1 \<le> start_line c \<and> start_line c \<le> end_line c \<and> end_line c \<le> N)
         \<and> (\<forall>i. i + 1 < length chunks \<longrightarrow>
               start_line (chunks ! (i + 1)) = end_line (chunks ! i) - 19
             \<and> start_line (chunks ! i) \<le> start_line (chunks ! (i + 1))
             \<and> end_line (chunks ! i) < end_line (chunks ! (i + 1)))
         \<and> (N = 200 \<longrightarrow> map (\<lambda>c. (start_line c, end_line c)) chunks = [(1, 180), (161, 200)])"
proof -
  let ?n = "segment_count N"
  let ?mk = "\<lambda>k. make_chunk the_chunker file_path lines (160 * int k) (tentative_end N k)"
  define chunks where "chunks = map ?mk [0 ..< ?n]"
  have n1: "0 < ?n" by (simp add: segment_count_def)
  have len: "length chunks = ?n" by (simp add: chunks_def)
  have nth: "chunks ! k = ?mk k" if "k < ?n" for k
    using that by (simp add: chunks_def)
  have ne: "\<forall>k. expand_for_semantic_blocks lines (160 * int k) (tentative_end N k) N
                  = Inr (tentative_end N k)"
    using no_expansion by (simp add: tentative_end_def)
  have Neq: "N = int (length lines)" by (simp add: N_def)
  have "lines \<noteq> []" using nonempty by (auto simp: N_def)
  then have run: "chunk_file the_chunker file_path content = Some (Inr chunks)"
    using chunk_loop_no_expansion [OF Neq nonempty ne n1, of file_path "[]"]
    by (simp add: chunk_file_def chunk_lines_of_def lines_def chunks_def)
  have nonnil: "chunks \<noteq> []" using n1 len by auto
  have cover: "\<exists>c \<in> set chunks. start_line c \<le> l \<and> l \<le> end_line c" if "1 \<le> l \<and> l \<le> N" for l
  proof -
    from that segment_covering [of l N]
    obtain k where k: "k < ?n" "160 * int k + 1 \<le> l" "l \<le> tentative_end N k" by blast
    then have "chunks ! k \<in> set chunks" using len by simp
    moreover have "start_line (chunks ! k) \<le> l \<and> l \<le> end_line (chunks ! k)"
      using k by (simp add: nth)
    ultimately show ?thesis by blast
  qed
  have range: "1 \<le> start_line c \<and> start_line c \<le> end_line c \<and> end_line c \<le> N"
    if "c \<in> set chunks" for c
  proof -
    from that obtain k where k: "k < ?n" and c: "c = ?mk k"
      by (auto simp: chunks_def)
    from segment_count_start [OF nonempty k] c show ?thesis
      by (simp add: tentative_end_def)
  qed
  have consecutive: "start_line (chunks ! (i + 1)) = end_line (chunks ! i) - 19
             \<and> start_line (chunks ! i) \<le> start_line (chunks ! (i + 1))
             \<and> end_line (chunks ! i) < end_line (chunks ! (i + 1))"
    if "i + 1 < length chunks" for i
  proof -
    from that len have i: "Suc i < ?n" by simp
    from segment_count_inner [OF i] have "160 * int i + 181 \<le> N" .
    then show ?thesis using i by (simp add: nth tentative_end_def)
  qed
  have two_hundred: "map (\<lambda>c. (start_line c, end_line c)) chunks = [(1, 180), (161, 200)]"
    if "N = 200"
  proof -
    from that have "?n = 2" by (simp add: segment_count_def)
    then have "[0 ..< ?n] = [0, 1]" by (simp add: upt_rec)
    then show ?thesis using that by (simp add: chunks_def tentative_end_def)
  qed
  show ?thesis
  proof (intro exI [of _ chunks] conjI allI impI ballI)
    show "chunk_file the_chunker file_path content = Some (Inr chunks)" by (rule run)
    show "chunks \<noteq> []" by (rule nonnil)
  next
    fix l assume "1 \<le> l \<and> l \<le> N"
    then show "\<exists>c \<in> set chunks. start_line c \<le> l \<and> l \<le> end_line c" by (rule cover)
  next
    fix c assume c: "c \<in> set chunks"
    from range [OF c] show "1 \<le> start_line c" by simp
    from range [OF c] show "start_line c \<le> end_line c" by simp
    from range [OF c] show "end_line c \<le> N" by simp
  next
    fix i assume i: "i + 1 < length chunks"
    from consecutive [OF i] show "start_line (chunks ! (i + 1)) = end_line (chunks ! i) - 19" by simp
    from consecutive [OF i] show "start_line (chunks ! i) \<le> start_line (chunks ! (i + 1))" by simp
    from consecutive [OF i] show "end_line (chunks ! i) < end_line (chunks ! (i + 1))" by simp
  next
    assume "N = 200"
    then show "map (\<lambda>c. (start_line c, end_line c)) chunks = [(1, 180), (161, 200)]"
      by (rule two_hundred)
  qed
qed

theorem segmenter_coverage_overlap_witness:
  "\<exists>chunks. chunk_file the_chunker ''app.js'' (lines_text (replicate 200 ''x'')) = Some (Inr chunks)
     \<and> map (\<lambda>c. (start_line c, end_line c)) chunks = [(1, 180), (161, 200)]"
proof -
  let ?ls = "replicate 200 ''x''"
  have nb: "\<forall>l \<in> set ?ls. \<forall>c \<in> set l. \<not> is_line_boundary c"
    by (simp add: is_line_boundary_def)
  have sl: "splitlines (lines_text ?ls) = ?ls"
    using nb by (rule splitlines_lines_text)
  have N: "int (length (splitlines (lines_text ?ls))) = 200"
    unfolding sl by simp
  have pos: "1 \<le> int (length (splitlines (lines_text ?ls)))"
    unfolding N by simp
  have nm: "\<forall>l \<in> set ?ls. CHR ''<'' \<notin> set l" by simp
  have ne: "\<forall>k. expand_for_semantic_blocks (splitlines (lines_text ?ls)) (160 * int k)
                  (min (160 * int k + 180) (int (length (splitlines (lines_text ?ls)))))
                  (int (length (splitlines (lines_text ?ls))))
              = Inr (min (160 * int k + 180) (int (length (splitlines (lines_text ?ls)))))"
    unfolding sl using nm by (simp add: no_markup_no_expansion)
  from segmenter_coverage_overlap [OF pos ne, of "''app.js''"]
  obtain chunks where run: "chunk_file the_chunker ''app.js'' (lines_text ?ls) = Some (Inr chunks)"
    and two: "int (length (splitlines (lines_text ?ls))) = 200 \<longrightarrow>
                map (\<lambda>c. (start_line c, end_line c)) chunks = [(1, 180), (161, 200)]"
    by (elim exE conjE) (rule that)
  from two N have "map (\<lambda>c. (start_line c, end_line c)) chunks = [(1, 180), (161, 200)]"
    by (rule mp)
  with run show ?thesis by (intro exI [of _ chunks] conjI)
qed
subsection \<open>Semantic expansion\<close>

lemma closing_search_window:
  "closing_search lines cl i n = Inr (Some c) \<Longrightarrow> i \<le> c \<and> c < i + int n"
proof (induction n arbitrary: i)
  case 0
  then show ?case by simp
next
  case (Suc n)
  show ?case
  proof (cases "py_get lines i")
    case None
    with Suc.prems show ?thesis by simp
  next
    case (Some l)
    show ?thesis
    proof (cases "re_search cl l")
      case True
      with Some Suc.prems show ?thesis by simp
    next
      case False
      with Some Suc.prems have "closing_search lines cl (i + 1) n = Inr (Some c)" by simp
      from Suc.IH [OF this] show ?thesis by simp
    qed
  qed
qed

text \<open>The closing marker is looked for on at most 100 lines, the opening line first.\<close>

lemma find_closing_tag_window:
  assumes "find_closing_tag lines open_line cl total_lines 100 = Inr (Some c)"
  shows "open_line \<le> c \<and> c < open_line + 100 \<and> c < total_lines"
proof -
  let ?n = "nat (min (open_line + 100) total_lines - open_line)"
  from assms have "closing_search lines cl open_line ?n = Inr (Some c)"
    by (simp add: find_closing_tag_def Let_def)
  from closing_search_window [OF this]
  have "open_line \<le> c" and "c < open_line + int ?n" by simp_all
  then show ?thesis by (auto split: if_splits)
qed

text \<open>Without a closing marker in the window, an opening match leaves the end as it is.\<close>

lemma expand_step_not_found:
  assumes "find_closing_tag lines
             (start + int (count_list (take m chunk_content) (CHR 0x0A))) cl total_lines 100
           = Inr None"
  shows "expand_step lines start total_lines chunk_content (Inr e) (m, cl) = Inr e"
  using assms by (simp add: expand_step_def Let_def)

lemma expand_step_grows:
  assumes "expand_step lines start total_lines chunk_content (Inr e) mc = Inr e'"
  shows "e \<le> e'"
proof -
  let ?o = "start + int (count_list (take (fst mc) chunk_content) (CHR 0x0A))"
  show ?thesis
  proof (cases "find_closing_tag lines ?o (snd mc) total_lines 100")
    case (Inl err)
    with assms show ?thesis by (simp add: expand_step_def Let_def)
  next
    case (Inr r)
    show ?thesis
    proof (cases r)
      case None
      with Inr assms show ?thesis by (simp add: expand_step_def Let_def)
    next
      case (Some c)
      with Inr find_closing_tag_window have "c < total_lines" by blast
      with Some Inr assms show ?thesis
        by (auto simp: expand_step_def Let_def split: if_splits)
    qed
  qed
qed

lemma expand_step_error [simp]:
  "expand_step lines start total_lines chunk_content (Inl err) mc = Inl err"
  by (simp add: expand_step_def)

lemma foldl_expand_step_error [simp]:
  "foldl (expand_step lines start total_lines chunk_content) (Inl err) ms = Inl err"
  by (induction ms) simp_all

lemma foldl_expand_step_grows:
  assumes "foldl (expand_step lines start total_lines chunk_content) (Inr e) ms = Inr e'"
  shows "e \<le> e'"
  using assms
proof (induction ms arbitrary: e)
  case Nil
  then show ?case by simp
next
  case (Cons mc ms)
  show ?case
  proof (cases "expand_step lines start total_lines chunk_content (Inr e) mc")
    case (Inl err)
    with Cons.prems show ?thesis by simp
  next
    case (Inr e1)
    with Cons.prems have "foldl (expand_step lines start total_lines chunk_content) (Inr e1) ms
                            = Inr e'" by simp
    from Cons.IH [OF this] expand_step_grows [OF Inr] show ?thesis by simp
  qed
qed

text \<open>
  An opening match whose closing marker is found on line index \<open>c\<close> makes the
  expanded end at least \<open>c + 1\<close>, that is, the segment ends on or after that line.
\<close>

lemma foldl_expand_step_reaches:
  assumes "(m, cl) \<in> set ms"
    and "find_closing_tag lines
           (start + int (count_list (take m chunk_content) (CHR 0x0A))) cl total_lines 100
         = Inr (Some c)"
    and "foldl (expand_step lines start total_lines chunk_content) (Inr e) ms = Inr e'"
  shows "c + 1 \<le> e'"
  using assms
proof (induction ms arbitrary: e)
  case Nil
  then show ?case by simp
next
  case (Cons mc ms)
  let ?f = "expand_step lines start total_lines chunk_content"
  show ?case
  proof (cases "?f (Inr e) mc")
    case (Inl err)
    with Cons.prems(3) show ?thesis by simp
  next
    case (Inr e1)
    with Cons.prems(3) have rest: "foldl ?f (Inr e1) ms = Inr e'" by simp
    show ?thesis
    proof (cases "mc = (m, cl)")
      case True
      from Cons.prems(2) find_closing_tag_window have "c < total_lines" by blast
      with True Inr Cons.prems(2) have "c + 1 \<le> e1"
        by (auto simp: expand_step_def Let_def split: if_splits)
      with foldl_expand_step_grows [OF rest] show ?thesis by simp
    next
      case False
      with Cons.prems(1) have "(m, cl) \<in> set ms" by simp
      from Cons.IH [OF this Cons.prems(2) rest] show ?thesis .
    qed
  qed
qed

lemma expand_reaches_closing_line:
  assumes "(m, cl) \<in> set (open_matches (join_nl (py_slice lines start e)))"
    and "find_closing_tag lines
           (start + int (count_list (take m (join_nl (py_slice lines start e))) (CHR 0x0A)))
           cl total_lines 100
         = Inr (Some c)"
    and "expand_for_semantic_blocks lines start e total_lines = Inr e'"
  shows "c + 1 \<le> e'"
  using assms foldl_expand_step_reaches
  unfolding expand_for_semantic_blocks_def Let_def by blast

text \<open>
  On the page \<open>one_script_lines\<close> the first segment, with the tentative end 180, is
  extended to the closing tag on line 210.
\<close>

lemma one_script_block_kept_whole:
  "expand_for_semantic_blocks one_script_lines 0 180 250 = Inr 210"
  by code_simp

lemma two_script_first_expand:
  "expand_for_semantic_blocks two_script_lines 0 180 250 = Inr 180"
  by code_simp

lemma two_script_second_expand:
  "expand_for_semantic_blocks two_script_lines 160 250 250 = Inr 250"
  by code_simp

lemma two_script_splitlines: "splitlines (lines_text two_script_lines) = two_script_lines"
  by (rule splitlines_lines_text) (simp add: two_script_lines_def is_line_boundary_def)

lemma two_script_length: "length two_script_lines = 250"
  by (simp add: two_script_lines_def)

text \<open>
  Claim C8 (semantic non-splitting). On the page \<open>two_script_lines\<close> a script block
  opens on line 170 and closes on line 210, and the first segment has the
  tentative end 180. The search for the closing marker starts on the opening
  line, finds there the closing tag of the block before, and reports line 170:
  the end is not extended, and the first segment is lines 1 to 180.
\<close>

theorem script_block_split_at_180:
  "two_script_lines ! 169 = ''</script><script>''
   \<and> two_script_lines ! 209 = ''</script>''
   \<and> expand_for_semantic_blocks two_script_lines 0 180 250 = Inr 180
   \<and> map_option (map_sum id (map (\<lambda>c. (start_line c, end_line c))))
         (chunk_file the_chunker ''page.html'' (lines_text two_script_lines))
       = Some (Inr [(1, 180), (161, 250)])"
proof -
  have l170: "two_script_lines ! 169 = ''</script><script>''"
    by (simp add: two_script_lines_def nth_append)
  have l210: "two_script_lines ! 209 = ''</script>''"
    by (simp add: two_script_lines_def nth_append)
  let ?c1 = "make_chunk the_chunker ''page.html'' two_script_lines 0 180"
  let ?c2 = "make_chunk the_chunker ''page.html'' two_script_lines 160 250"
  have second: "chunk_loop the_chunker ''page.html'' two_script_lines 160 [?c1]
                  = Some (Inr [?c1, ?c2])"
    by (subst chunk_loop.simps)
       (simp add: two_script_length the_chunker_def two_script_second_expand)
  have "chunk_loop the_chunker ''page.html'' two_script_lines 0 []
          = chunk_loop the_chunker ''page.html'' two_script_lines 160 [?c1]"
    by (subst chunk_loop.simps)
       (simp add: two_script_length the_chunker_def two_script_first_expand)
  with second have "chunk_file the_chunker ''page.html'' (lines_text two_script_lines)
                      = Some (Inr [?c1, ?c2])"
    by (simp add: chunk_file_def chunk_lines_of_def two_script_splitlines two_script_length)
  then have "map_option (map_sum id (map (\<lambda>c. (start_line c, end_line c))))
         (chunk_file the_chunker ''page.html'' (lines_text two_script_lines))
       = Some (Inr [(1, 180), (161, 250)])"
    by simp
  with l170 l210 two_script_first_expand show ?thesis by (intro conjI)
qed

section \<open>Properties of the sandbox\<close>

lemma copy2_other:
  assumes "copy2 src dst w = Inr w'" and "p \<noteq> dst"
  shows "files w' p = files w p" and "write_count p w' = write_count p w"
  using assms by (auto simp: copy2_def write_count_def split: option.splits if_splits)

lemma copy2_dst:
  assumes "copy2 src dst w = Inr w'"
  shows "files w' dst = files w src" and "write_count dst w' = write_count dst w + 1"
    and "src \<noteq> dst"
  using assms by (auto simp: copy2_def write_count_def split: option.splits if_splits)

lemma create_temp_copy_Inr:
  assumes "create_temp_copy self original_path w = Inr (temp_path, w1)"
  shows "temp_path = temp_path_of self original_path"
    and "temp_path \<noteq> original_path"
    and "leaves_untouched original_path w w1"
proof -
  from assms have t: "temp_path = temp_path_of self original_path"
    and c: "copy2 original_path temp_path w = Inr w1"
    by (auto simp: create_temp_copy_def split: sum.splits)
  from copy2_dst(3) [OF c] have ne: "original_path \<noteq> temp_path" .
  from t show "temp_path = temp_path_of self original_path" .
  from ne show "temp_path \<noteq> original_path" by simp
  from copy2_other [OF c ne] show "leaves_untouched original_path w w1"
    by (simp add: leaves_untouched_def)
qed

lemma leaves_untouched_trans:
  "leaves_untouched p w w1 \<Longrightarrow> leaves_untouched p w1 w2 \<Longrightarrow> leaves_untouched p w w2"
  by (simp add: leaves_untouched_def)

text \<open>
  Whatever the callables do, the sandbox itself writes the original path at one
  point only: after a failure the file system is as the last callable that ran left
  it (or untouched, when the scratch copy could not be made); after a success it is
  as the validation callable left it, plus the one copy of the scratch file over
  the original.
\<close>

lemma apply_and_validate_own_writes:
  "case apply_and_validate self original_path patch_fn validate_fn w of
     ((success, temp_path, err), w') \<Rightarrow>
       (case create_temp_copy self original_path w of
          Inl x \<Rightarrow> \<not> success \<and> w' = w
        | Inr (tmp, w1) \<Rightarrow>
            if success
            then copy2 tmp original_path (snd (validate_fn tmp (snd (patch_fn tmp w1)))) = Inr w'
            else w' = snd (patch_fn tmp w1)
               \<or> w' = snd (validate_fn tmp (snd (patch_fn tmp w1))))"
  by (auto simp: apply_and_validate_def split: sum.splits prod.splits)

text \<open>
  The sandbox reports success exactly when the scratch copy was made, the patch
  callable returned success, the validation callable returned valid and the scratch
  file is still there to be copied; the last step is then the copy of the scratch
  file over the original.
\<close>

lemma apply_and_validate_commits:
  assumes t: "create_temp_copy self original_path w = Inr (tmp, w1)"
    and p: "patch_fn tmp w1 = (Inr (True, backup_path, e1), w2)"
    and v: "validate_fn tmp w2 = (Inr (True, e2), w3)"
    and c: "files w3 tmp = Some content"
  shows "\<exists>w'. apply_and_validate self original_path patch_fn validate_fn w
                 = ((True, Some tmp, None), w')
            \<and> copy2 tmp original_path w3 = Inr w'"
proof -
  from create_temp_copy_Inr(2) [OF t] have ne: "tmp \<noteq> original_path" .
  with c obtain w' where c2: "copy2 tmp original_path w3 = Inr w'"
    by (simp add: copy2_def)
  with t p v show ?thesis
    by (simp add: apply_and_validate_def)
qed

lemma apply_and_validate_success:
  assumes "apply_and_validate self original_path patch_fn validate_fn w
             = ((True, temp_path, err), w')"
  shows "\<exists>w1 w2 w3 backup_path e1 e2 content.
            create_temp_copy self original_path w = Inr (temp_path_of self original_path, w1)
          \<and> patch_fn (temp_path_of self original_path) w1 = (Inr (True, backup_path, e1), w2)
          \<and> validate_fn (temp_path_of self original_path) w2 = (Inr (True, e2), w3)
          \<and> files w3 (temp_path_of self original_path) = Some content
          \<and> copy2 (temp_path_of self original_path) original_path w3 = Inr w'"
proof (cases "create_temp_copy self original_path w")
  case (Inl e)
  with assms show ?thesis by (simp add: apply_and_validate_def)
next
  case (Inr tw)
  obtain temp w1 where tw: "tw = (temp, w1)" by (cases tw)
  from create_temp_copy_Inr(1) [OF Inr [unfolded tw]]
  have t: "temp = temp_path_of self original_path" .
  let ?tmp = "temp_path_of self original_path"
  from Inr tw t have tc: "create_temp_copy self original_path w = Inr (?tmp, w1)" by simp
  obtain r2 w2 where p: "patch_fn ?tmp w1 = (r2, w2)" by (cases "patch_fn ?tmp w1")
  from assms tc p obtain backup_path e1 where r2: "r2 = Inr (True, backup_path, e1)"
    by (auto simp: apply_and_validate_def split: sum.splits if_splits)
  obtain r3 w3 where v: "validate_fn ?tmp w2 = (r3, w3)" by (cases "validate_fn ?tmp w2")
  from assms tc p r2 v obtain e2 where r3: "r3 = Inr (True, e2)"
    by (auto simp: apply_and_validate_def split: sum.splits if_splits)
  from assms tc p r2 v r3 have c: "copy2 ?tmp original_path w3 = Inr w'"
    by (auto simp: apply_and_validate_def split: sum.splits)
  then obtain content where f: "files w3 ?tmp = Some content"
    by (auto simp: copy2_def split: option.splits)
  from tc p r2 v r3 f c show ?thesis by blast
qed

text \<open>
  Claim C1 (sandbox atomicity). The callables are run on the scratch path; they are
  taken not to change or write the original path themselves. Then, for every
  original path and every such pair of callables, \<^verbatim>\<open>apply_and_validate\<close> reports
  success exactly when the scratch copy was made, the patch callable returned
  success on it, the validation callable returned valid and the scratch file is
  there to be copied. In that case the original path has been written exactly once
  and holds the content the scratch file had after the validation. In every other
  case the original file has its content of before the call and has not been
  written.
\<close>

theorem sandbox_atomicity:
  fixes self :: patch_sandbox and original_path :: string
    and patch_fn :: patch_func and validate_fn :: validate_func and w :: world
  defines "tmp \<equiv> temp_path_of self original_path"
  assumes patch_frame: "\<forall>v. leaves_untouched original_path v (snd (patch_fn tmp v))"
    and validate_frame: "\<forall>v. leaves_untouched original_path v (snd (validate_fn tmp v))"
  shows "case apply_and_validate self original_path patch_fn validate_fn w of
           ((success, temp_path, err), w') \<Rightarrow>
             (success \<longleftrightarrow>
                (\<exists>w1 w2 w3 backup_path e1 e2 content.
                    create_temp_copy self original_path w = Inr (tmp, w1)
                  \<and> patch_fn tmp w1 = (Inr (True, backup_path, e1), w2)
                  \<and> validate_fn tmp w2 = (Inr (True, e2), w3)
                  \<and> files w3 tmp = Some content))
           \<and> (if success
                then write_count original_path w' = write_count original_path w + 1
                   \<and> (\<exists>w1 w2 w3 backup_path e1 e2 content.
                         create_temp_copy self original_path w = Inr (tmp, w1)
                       \<and> patch_fn tmp w1 = (Inr (True, backup_path, e1), w2)
                       \<and> validate_fn tmp w2 = (Inr (True, e2), w3)
                       \<and> files w3 tmp = Some content
                       \<and> files w' original_path = Some content)
                else files w' original_path = files w original_path
                   \<and> write_count original_path w' = write_count original_path w)"
proof -
  obtain success temp_path err w' where
    run: "apply_and_validate self original_path patch_fn validate_fn w
            = ((success, temp_path, err), w')"
    by (metis prod.collapse)
  let ?committed = "\<lambda>w1 w2 w3 backup_path e1 e2 content.
      create_temp_copy self original_path w = Inr (tmp, w1)
    \<and> patch_fn tmp w1 = (Inr (True, backup_path, e1), w2)
    \<and> validate_fn tmp w2 = (Inr (True, e2), w3)
    \<and> files w3 tmp = Some content"
  have failed: "files w' original_path = files w original_path
                \<and> write_count original_path w' = write_count original_path w"
    if "\<not> success"
  proof -
    from apply_and_validate_own_writes
      [where self = self and original_path = original_path and patch_fn = patch_fn
         and validate_fn = validate_fn and w = w]
    have own: "case create_temp_copy self original_path w of
                 Inl x \<Rightarrow> w' = w
               | Inr (t, w1) \<Rightarrow>
                   w' = snd (patch_fn t w1) \<or> w' = snd (validate_fn t (snd (patch_fn t w1)))"
      using run that by (auto split: sum.splits prod.splits)
    show ?thesis
    proof (cases "create_temp_copy self original_path w")
      case (Inl x)
      with own show ?thesis by simp
    next
      case (Inr tw)
      obtain t w1 where tw: "tw = (t, w1)" by (cases tw)
      from create_temp_copy_Inr [OF Inr [unfolded tw]]
      have t: "t = tmp" and u1: "leaves_untouched original_path w w1"
        by (simp_all add: tmp_def)
      from patch_frame have u2: "leaves_untouched original_path w1 (snd (patch_fn tmp w1))"
        by simp
      from validate_frame
      have u3: "leaves_untouched original_path (snd (patch_fn tmp w1))
                  (snd (validate_fn tmp (snd (patch_fn tmp w1))))"
        by simp
      from own Inr tw t
      have "w' = snd (patch_fn tmp w1) \<or> w' = snd (validate_fn tmp (snd (patch_fn tmp w1)))"
        by simp
      with u1 u2 u3 have "leaves_untouched original_path w w'"
        by (metis leaves_untouched_trans)
      then show ?thesis by (simp add: leaves_untouched_def)
    qed
  qed
  have committed: "write_count original_path w' = write_count original_path w + 1
                   \<and> (\<exists>w1 w2 w3 backup_path e1 e2 content.
                         ?committed w1 w2 w3 backup_path e1 e2 content
                       \<and> files w' original_path = Some content)"
    if "success"
  proof -
    from apply_and_validate_success [OF run [unfolded eqTrueI [OF that]]]
    obtain w1 w2 w3 backup_path e1 e2 content where
      t: "create_temp_copy self original_path w = Inr (tmp, w1)"
      and p: "patch_fn tmp w1 = (Inr (True, backup_path, e1), w2)"
      and v: "validate_fn tmp w2 = (Inr (True, e2), w3)"
      and f: "files w3 tmp = Some content"
      and c: "copy2 tmp original_path w3 = Inr w'"
      unfolding tmp_def by blast
    from create_temp_copy_Inr(3) [OF t] have u1: "leaves_untouched original_path w w1" .
    from patch_frame p have u2: "leaves_untouched original_path w1 w2"
      by (metis snd_conv)
    from validate_frame v have u3: "leaves_untouched original_path w2 w3"
      by (metis snd_conv)
    from u1 u2 u3 have u: "leaves_untouched original_path w w3"
      by (metis leaves_untouched_trans)
    from copy2_dst(1,2) [OF c] u f
    have "files w' original_path = Some content"
      and "write_count original_path w' = write_count original_path w + 1"
      by (simp_all add: leaves_untouched_def)
    with t p v f show ?thesis by blast
  qed
  have iff: "success \<longleftrightarrow>
               (\<exists>w1 w2 w3 backup_path e1 e2 content.
                   ?committed w1 w2 w3 backup_path e1 e2 content)"
  proof
    assume success
    from committed [OF this] show "\<exists>w1 w2 w3 backup_path e1 e2 content.
                   ?committed w1 w2 w3 backup_path e1 e2 content"
      by blast
  next
    assume "\<exists>w1 w2 w3 backup_path e1 e2 content.
                   ?committed w1 w2 w3 backup_path e1 e2 content"
    then obtain w1 w2 w3 backup_path e1 e2 content
      where "?committed w1 w2 w3 backup_path e1 e2 content" by blast
    then have "\<exists>w''. apply_and_validate self original_path patch_fn validate_fn w
                       = ((True, Some tmp, None), w'')
                  \<and> copy2 tmp original_path w3 = Inr w''"
      using apply_and_validate_commits
        [where self = self and original_path = original_path and w = w and tmp = tmp
           and ?w1.0 = w1 and patch_fn = patch_fn and backup_path = backup_path and ?e1.0 = e1
           and ?w2.0 = w2 and validate_fn = validate_fn and ?e2.0 = e2 and ?w3.0 = w3
           and content = content]
      by simp
    with run show success by auto
  qed
  show ?thesis
    unfolding run prod.case
    using iff failed committed by (cases success) simp_all
qed

theorem sandbox_atomicity_witness:
  "fst (apply_and_validate
         \<lparr>sandbox_dir = ''/tmp/seo_checker_sandbox'', sandbox_id = ''1''\<rparr>
         ''/app/workspace/j1/app.js''
         (\<lambda>t v. (Inr (True, None, None), write_file t ''b'' v))
         (\<lambda>t v. (Inr (False, Some (Raised ''invalid'')), v))
         \<lparr>files = [''/app/workspace/j1/app.js'' \<mapsto> ''a''], writes = [], ticks = 0\<rparr>)
     = (False, Some ''/tmp/seo_checker_sandbox/app_temp_1.js'', Some (Raised ''invalid''))
   \<and> files (snd (apply_and_validate
         \<lparr>sandbox_dir = ''/tmp/seo_checker_sandbox'', sandbox_id = ''1''\<rparr>
         ''/app/workspace/j1/app.js''
         (\<lambda>t v. (Inr (True, None, None), write_file t ''b'' v))
         (\<lambda>t v. (Inr (False, Some (Raised ''invalid'')), v))
         \<lparr>files = [''/app/workspace/j1/app.js'' \<mapsto> ''a''], writes = [], ticks = 0\<rparr>))
       ''/app/workspace/j1/app.js'' = Some ''a''
   \<and> write_count ''/app/workspace/j1/app.js'' (snd (apply_and_validate
         \<lparr>sandbox_dir = ''/tmp/seo_checker_sandbox'', sandbox_id = ''1''\<rparr>
         ''/app/workspace/j1/app.js''
         (\<lambda>t v. (Inr (True, None, None), write_file t ''b'' v))
         (\<lambda>t v. (Inr (False, Some (Raised ''invalid'')), v))
         \<lparr>files = [''/app/workspace/j1/app.js'' \<mapsto> ''a''], writes = [], ticks = 0\<rparr>)) = 0
   \<and> fst (apply_and_validate
         \<lparr>sandbox_dir = ''/tmp/seo_checker_sandbox'', sandbox_id = ''1''\<rparr>
         ''/app/workspace/j1/app.js''
         (\<lambda>t v. (Inr (True, None, None), write_file t ''b'' v))
         (\<lambda>t v. (Inr (True, None), v))
         \<lparr>files = [''/app/workspace/j1/app.js'' \<mapsto> ''a''], writes = [], ticks = 0\<rparr>)
     = (True, Some ''/tmp/seo_checker_sandbox/app_temp_1.js'', None)
   \<and> files (snd (apply_and_validate
         \<lparr>sandbox_dir = ''/tmp/seo_checker_sandbox'', sandbox_id = ''1''\<rparr>
         ''/app/workspace/j1/app.js''
         (\<lambda>t v. (Inr (True, None, None), write_file t ''b'' v))
         (\<lambda>t v. (Inr (True, None), v))
         \<lparr>files = [''/app/workspace/j1/app.js'' \<mapsto> ''a''], writes = [], ticks = 0\<rparr>))
       ''/app/workspace/j1/app.js'' = Some ''b''
   \<and> write_count ''/app/workspace/j1/app.js'' (snd (apply_and_validate
         \<lparr>sandbox_dir = ''/tmp/seo_checker_sandbox'', sandbox_id = ''1''\<rparr>
         ''/app/workspace/j1/app.js''
         (\<lambda>t v. (Inr (True, None, None), write_file t ''b'' v))
         (\<lambda>t v. (Inr (True, None), v))
         \<lparr>files = [''/app/workspace/j1/app.js'' \<mapsto> ''a''], writes = [], ticks = 0\<rparr>)) = 1"
proof -
  let ?sb = "\<lparr>sandbox_dir = ''/tmp/seo_checker_sandbox'', sandbox_id = ''1''\<rparr>"
  let ?orig = "''/app/workspace/j1/app.js''"
  let ?pf = "\<lambda>t v. (Inr (True, None, None) :: error + patch_result, write_file t ''b'' v)"
  let ?vf = "\<lambda>(t :: string) (v :: world).
               (Inr (False, Some (Raised ''invalid'')) :: error + bool \<times> error option, v)"
  let ?vt = "\<lambda>(t :: string) (v :: world).
               (Inr (True, None) :: error + bool \<times> error option, v)"
  let ?w0 = "\<lparr>files = [?orig \<mapsto> ''a''], writes = [], ticks = 0\<rparr>"
  have tmp: "temp_path_of ?sb ?orig = ''/tmp/seo_checker_sandbox/app_temp_1.js''"
    by (simp add: temp_path_of_def path_stem_def path_suffix_def path_name_def)
  have pframe: "\<forall>v. leaves_untouched ?orig v (snd (?pf (temp_path_of ?sb ?orig) v))"
    unfolding tmp by (simp add: leaves_untouched_def write_file_def write_count_def)
  have vframe: "\<forall>v. leaves_untouched ?orig v (snd (?vf (temp_path_of ?sb ?orig) v))"
    by (simp add: leaves_untouched_def)
  have tframe: "\<forall>v. leaves_untouched ?orig v (snd (?vt (temp_path_of ?sb ?orig) v))"
    by (simp add: leaves_untouched_def)
  obtain res w' where run: "apply_and_validate ?sb ?orig ?pf ?vf ?w0 = (res, w')"
    by (cases "apply_and_validate ?sb ?orig ?pf ?vf ?w0")
  have "fst (apply_and_validate ?sb ?orig ?pf ?vf ?w0)
          = (False, Some ''/tmp/seo_checker_sandbox/app_temp_1.js'', Some (Raised ''invalid''))"
    by (simp add: apply_and_validate_def create_temp_copy_def copy2_def tmp)
  with run have res: "res = (False, Some ''/tmp/seo_checker_sandbox/app_temp_1.js'',
                              Some (Raised ''invalid''))"
    by simp
  from sandbox_atomicity [where self = ?sb and original_path = ?orig and patch_fn = ?pf
      and validate_fn = ?vf and w = ?w0, OF pframe vframe] run res
  have "files w' ?orig = files ?w0 ?orig \<and> write_count ?orig w' = write_count ?orig ?w0"
    by simp
  then have failing: "files w' ?orig = Some ''a''" "write_count ?orig w' = 0"
    by (simp_all add: write_count_def)
  obtain res2 w'' where run2: "apply_and_validate ?sb ?orig ?pf ?vt ?w0 = (res2, w'')"
    by (cases "apply_and_validate ?sb ?orig ?pf ?vt ?w0")
  have "fst (apply_and_validate ?sb ?orig ?pf ?vt ?w0)
          = (True, Some ''/tmp/seo_checker_sandbox/app_temp_1.js'', None)"
    by (simp add: apply_and_validate_def create_temp_copy_def copy2_def write_file_def tmp)
  with run2 have res2: "res2 = (True, Some ''/tmp/seo_checker_sandbox/app_temp_1.js'', None)"
    by simp
  have scratch: "files (snd (?vt (temp_path_of ?sb ?orig)
                   (snd (?pf (temp_path_of ?sb ?orig) v)))) (temp_path_of ?sb ?orig) = Some ''b''"
    for v
    by (simp add: write_file_def)
  from sandbox_atomicity [where self = ?sb and original_path = ?orig and patch_fn = ?pf
      and validate_fn = ?vt and w = ?w0, OF pframe tframe] run2 res2
  have "write_count ?orig w'' = write_count ?orig ?w0 + 1
        \<and> (\<exists>w3 content. files w3 (temp_path_of ?sb ?orig) = Some content
               \<and> (\<exists>w1. w3 = snd (?vt (temp_path_of ?sb ?orig)
                                  (snd (?pf (temp_path_of ?sb ?orig) w1))))
               \<and> files w'' ?orig = Some content)"
    by auto
  with scratch have committing: "files w'' ?orig = Some ''b''" "write_count ?orig w'' = 1"
    by (auto simp: write_count_def)
  from run res failing run2 res2 committing show ?thesis by simp
qed

section \<open>Properties of batch approval and rollback\<close>

subsection \<open>The session in the loop body\<close>

text \<open>
  Each pass of the loop has executed its \<^verbatim>\<open>select\<close> when it comes to
  \<^verbatim>\<open>async with db.begin()\<close>, so that \<^verbatim>\<open>begin()\<close> raises in every pass.
\<close>

lemma session_begin_after_execute:
  "session_begin (session_execute st) = Inl InvalidRequestError"
  by (simp add: session_begin_def session_execute_def)

text \<open>
  Hence no pass writes the tables, none reports an edit as applied, and none ends
  in the \<^verbatim>\<open>break\<close> of the failure branch.
\<close>

lemma approve_one_keeps_db:
  "db (snd (approve_one e sandbox engine approval issue_id st)) = db st"
  by (auto simp: approve_one_def Let_def session_begin_def session_execute_def
        transaction_failed_def split: option.splits prod.splits sum.splits)

lemma approve_one_never_breaks:
  "fst (approve_one e sandbox engine approval issue_id st) \<noteq> Break r"
  by (auto simp: approve_one_def Let_def session_begin_def session_execute_def
        transaction_failed_def split: option.splits prod.splits sum.splits)

lemma approve_one_never_applies:
  "fst (approve_one e sandbox engine approval issue_id st) \<noteq> Continue (AppliedResult j b)"
  by (auto simp: approve_one_def Let_def session_begin_def session_execute_def
        transaction_failed_def split: option.splits prod.splits sum.splits)

lemma approve_loop_keeps_db:
  "db (snd (approve_loop e sandbox engine approval ids st acc)) = db st"
proof (induction ids arbitrary: st acc)
  case Nil
  show ?case by simp
next
  case (Cons i ids)
  obtain out st' where one: "approve_one e sandbox engine approval i st = (out, st')"
    by (cases "approve_one e sandbox engine approval i st")
  from approve_one_keeps_db [of e sandbox engine approval i st] one
  have same: "db st' = db st" by simp
  show ?case
  proof (cases out)
    case (Continue r)
    with one Cons.IH [of st' "acc @ [r]"] same show ?thesis by simp
  next
    case (Break r)
    with one same show ?thesis by simp
  next
    case (Raise x)
    with one same show ?thesis by simp
  qed
qed

lemma approve_issues_keeps_db:
  "db (snd (approve_issues e sandbox engine approval st)) = db st"
proof -
  obtain r st' where
    run: "approve_loop e sandbox engine approval (issue_ids approval) (session_open st) []
            = (r, st')"
    by (metis prod.exhaust)
  from approve_loop_keeps_db [of e sandbox engine approval "issue_ids approval" "session_open st" "[]"]
    run
  have "db st' = db st" by (simp add: session_open_def)
  with run show ?thesis
    by (cases r) (simp_all add: approve_issues_def session_close_def session_commit_def)
qed

subsection \<open>Backup and rollback around an approval\<close>

lemma create_backup_copy:
  assumes "create_backup e engine p w = (Inr b, w2)"
  shows "files w2 b = files w2 p" and "files w2 p = files w p"
proof -
  let ?w1 = "w\<lparr>ticks := ticks w + 1\<rparr>"
  from assms obtain c: "copy2 p b ?w1 = Inr w2"
    by (auto simp: create_backup_def Let_def split: sum.splits)
  from copy2_dst(3) [OF c] have ne: "p \<noteq> b" .
  from copy2_other(1) [OF c ne] have same: "files w2 p = files ?w1 p" .
  from copy2_dst(1) [OF c] same show "files w2 b = files w2 p" by simp
  from same show "files w2 p = files w p" by simp
qed

text \<open>
  The route takes its backup after the sandbox has copied the patched scratch file
  over the original: the backup holds the content the sandbox has left in the file.
\<close>

lemma route_backup_holds_patched_content:
  assumes "sandboxed_patch e sandbox engine approval issue w = ((True, temp_path, err), w1)"
    and "create_backup e engine (row_file_path issue) w1 = (Inr backup_path, w2)"
  shows "files w2 backup_path = files w1 (row_file_path issue)"
  using create_backup_copy [OF assms(2)] by simp

text \<open>A rollback finds nothing where no patch history row names the issue.\<close>

lemma rollback_patch_not_found:
  assumes "\<forall>h \<in> set (patch_history (db st)). ph_issue_id h \<noteq> issue_id"
  shows "fst (rollback_patch issue_id st) = Inl PatchHistoryNotFound"
    and "fs (snd (rollback_patch issue_id st)) = fs st"
    and "db (snd (rollback_patch issue_id st)) = db st"
proof -
  from assms
  have "filter (\<lambda>h. ph_issue_id h = issue_id) (patch_history (db st)) = []"
    by (simp add: filter_empty_conv)
  then have run: "rollback_patch issue_id st
                    = (Inl PatchHistoryNotFound, session_close (session_execute (session_open st)))"
    by (simp add: rollback_patch_def Let_def session_execute_def session_open_def)
  from run show "fst (rollback_patch issue_id st) = Inl PatchHistoryNotFound" by simp
  from run show "fs (snd (rollback_patch issue_id st)) = fs st"
    by (simp add: session_close_def session_execute_def session_open_def)
  from run show "db (snd (rollback_patch issue_id st)) = db st"
    by (simp add: session_close_def session_execute_def session_open_def)
qed

text \<open>
  Claim C2 (rollback round trip). One approved edit replaces line 1 of a one-line
  file. The sandbox writes the patched line to the file; the route then takes its
  backup, which holds the patched line too; \<^verbatim>\<open>async with db.begin()\<close> raises, so the
  edit is reported as \<^verbatim>\<open>transaction_failed\<close>, keeps its status and gets neither a
  backup path nor a patch history row. The rollback of the edit fails for want of a
  patch history row, and the file keeps the patched line.
\<close>

theorem approved_edit_has_no_rollback:
  "(case approve_issues quiet_env the_sandbox the_engine
           \<lparr>issue_ids = [1], edited_code = None\<rparr> one_edit_state of
      (r, st) \<Rightarrow>
        (case rollback_patch 1 st of
           (r2, st2) \<Rightarrow>
             (r,
              files (fs one_edit_state) ''/app/workspace/j1/app.js'',
              files (fs st) ''/app/workspace/j1/app.js'',
              files (fs st) ''/app/backups/app_20240101_120000.js.bak'',
              map_option row_status (issues (db st) 1),
              map_option row_backup_path (issues (db st) 1),
              patch_history (db st),
              r2,
              files (fs st2) ''/app/workspace/j1/app.js'')))
   = (Inr (1, [TransactionFailed 1 InvalidRequestError]),
      Some (''let a = 1;'' @ [CHR 0x0A]),
      Some (''let a = 2;'' @ [CHR 0x0A]),
      Some (''let a = 2;'' @ [CHR 0x0A]),
      Some APPROVED,
      Some None,
      [],
      Inl PatchHistoryNotFound,
      Some (''let a = 2;'' @ [CHR 0x0A]))"
  by code_simp

subsection \<open>The breaker in the batch loop\<close>

lemma record_failure_reports_trip:
  "fst (record_failure k b) \<Longrightarrow> is_tripped k (snd (record_failure k b))"
  by (auto simp: record_failure_def is_tripped_def Let_def split: if_splits)

lemma approve_one_tripped:
  assumes "issues (db st) i = Some issue"
    and "is_tripped (row_job_id issue) (circuit_breaker st)"
  shows "approve_one e sandbox engine approval i st
           = (Continue (CircuitBreakerTripped i (tripped_message (row_job_id issue))),
              session_execute st)"
  using assms by (simp add: approve_one_def session_execute_def)

lemma approve_one_not_found:
  assumes "issues (db st) i = None"
  shows "approve_one e sandbox engine approval i st
           = (Continue (NotFoundResult i), session_execute st)"
  using assms by (simp add: approve_one_def session_execute_def)

text \<open>
  An edit whose job the breaker reports tripped when its turn comes is skipped, and
  the loop goes on to the next id: a batch whose edits all belong to tripped jobs
  gets one \<^verbatim>\<open>circuit_breaker_tripped\<close> result for each of its edits, and changes no
  file, no row and no breaker state.
\<close>

lemma approve_loop_all_tripped:
  assumes "\<forall>i \<in> set ids. \<forall>r. issues (db st) i = Some r
             \<longrightarrow> is_tripped (row_job_id r) (circuit_breaker st)"
  shows "approve_loop e sandbox engine approval ids st acc
           = (Inr (acc @ map (\<lambda>i. case issues (db st) i of
                                      None \<Rightarrow> NotFoundResult i
                                    | Some r \<Rightarrow>
                                        CircuitBreakerTripped i (tripped_message (row_job_id r)))
                             ids),
              if ids = [] then st else session_execute st)"
  using assms
proof (induction ids arbitrary: st acc)
  case Nil
  show ?case by simp
next
  case (Cons i ids)
  let ?st = "session_execute st"
  have same: "db ?st = db st" "circuit_breaker ?st = circuit_breaker st"
    "session_execute ?st = ?st"
    by (simp_all add: session_execute_def)
  from Cons.prems
  have rest: "\<forall>i \<in> set ids. \<forall>r. issues (db ?st) i = Some r
                \<longrightarrow> is_tripped (row_job_id r) (circuit_breaker ?st)"
    by (simp add: same)
  note IH = Cons.IH [OF rest, unfolded same]
  show ?case
  proof (cases "issues (db st) i")
    case None
    then show ?thesis by (simp add: approve_one_not_found IH)
  next
    case (Some r)
    with Cons.prems have "is_tripped (row_job_id r) (circuit_breaker st)" by simp
    with Some show ?thesis by (simp add: approve_one_tripped IH)
  qed
qed

text \<open>
  Claim C4 (batch halt on trip). Job J1 has four failures on record, and the batch
  holds its approved edits 1, 2 and 3. Edit 1 is patched in the sandbox, its
  transaction fails, and \<^verbatim>\<open>record_failure\<close> returns true: the breaker reports the job
  tripped. The loop does not stop there: it goes on to edits 2 and 3 and adds a
  \<^verbatim>\<open>circuit_breaker_tripped\<close> result for each of them. All three edits keep their
  status.
\<close>

theorem batch_continues_after_trip:
  "(case approve_issues quiet_env the_sandbox the_engine
           \<lparr>issue_ids = [1, 2, 3], edited_code = None\<rparr> tripping_batch_state of
      (r, st) \<Rightarrow>
        (is_tripped ''J1'' (circuit_breaker tripping_batch_state),
         fst (record_failure ''J1'' (circuit_breaker tripping_batch_state)),
         r,
         is_tripped ''J1'' (circuit_breaker st),
         map (\<lambda>i. map_option row_status (issues (db st) i)) [1, 2, 3]))
   = (False,
      True,
      Inr (3, [TransactionFailed 1 InvalidRequestError,
               CircuitBreakerTripped 2 ''Circuit breaker tripped for job J1. Too many failures.'',
               CircuitBreakerTripped 3 ''Circuit breaker tripped for job J1. Too many failures.'']),
      True,
      [Some APPROVED, Some APPROVED, Some APPROVED])"
  by code_simp

end
